theory Spec2Isabelle
  imports Complex_Main
begin

section \<open>The authoritative node (server.js)\<close>

text \<open>
  The server keeps two module-level variables: \<^verbatim>\<open>users\<close>, an object keyed by socket id,
  and \<^verbatim>\<open>fireLocations\<close>, an array. A JavaScript object enumerates its (non-numeric) keys in
  insertion order, and \<^verbatim>\<open>Object.values\<close> is what every snapshot sends, so the object is an
  association list here. Coordinates and floors are JavaScript numbers; the model takes
  them to be integers.
\<close>

type_synonym socket_id = string

text \<open>The object literal stored by \<^verbatim>\<open>updateUser\<close>: exactly the properties id, x, y, floor.\<close>

record server_user =
  su_id :: socket_id
  su_x :: int
  su_y :: int
  su_floor :: int

record fire =
  fire_x :: int
  fire_y :: int
  fire_floor :: int

text \<open>
  Payloads. A property that the sender left out reads as \<^verbatim>\<open>undefined\<close>: \<open>None\<close>.
  The client sends \<^verbatim>\<open>{x, y, floor, role}\<close> with \<^verbatim>\<open>updateUser\<close>.
\<close>

record user_data =
  ud_x :: int
  ud_y :: int
  ud_floor :: "int option"
  ud_role :: "string option"

record fire_data =
  fd_x :: int
  fd_y :: int
  fd_floor :: "int option"

record clear_data =
  cd_floor :: "int option"

record server =
  srv_users :: "(socket_id \<times> server_user) list"
  srv_fireLocations :: "fire list"
  srv_sockets :: "socket_id list"

datatype message =
    Init socket_id "server_user list" "fire list"
  | StateUpdate "server_user list" "fire list"

datatype event =
    Connection socket_id
  | UpdateUser socket_id user_data
  | ToggleFire socket_id fire_data
  | ClearFire socket_id clear_data
  | Disconnect socket_id

text \<open>\<^verbatim>\<open>data.floor || 1\<close>: the right operand is taken when the left one is falsy, that is
  when it is missing and also when it is the number 0.\<close>

definition floor_or_1 :: "int option \<Rightarrow> int" where
  "floor_or_1 f = (case f of None \<Rightarrow> 1 | Some n \<Rightarrow> if n = 0 then 1 else n)"

text \<open>\<^verbatim>\<open>obj[k] = v\<close>: an existing key keeps its place, a new key goes last.\<close>

fun obj_set :: "('k \<times> 'v) list \<Rightarrow> 'k \<Rightarrow> 'v \<Rightarrow> ('k \<times> 'v) list" where
  "obj_set [] k v = [(k, v)]"
| "obj_set ((k', v') # kvs) k v =
     (if k' = k then (k, v) # kvs else (k', v') # obj_set kvs k v)"

text \<open>\<^verbatim>\<open>obj[k]\<close>, \<^verbatim>\<open>delete obj[k]\<close> and \<^verbatim>\<open>Object.values(obj)\<close>.\<close>

definition obj_get :: "('k \<times> 'v) list \<Rightarrow> 'k \<Rightarrow> 'v option" where
  "obj_get kvs k = map_of kvs k"

definition obj_delete :: "('k \<times> 'v) list \<Rightarrow> 'k \<Rightarrow> ('k \<times> 'v) list" where
  "obj_delete kvs k = filter (\<lambda>kv. fst kv \<noteq> k) kvs"

definition Object_values :: "('k \<times> 'v) list \<Rightarrow> 'v list" where
  "Object_values kvs = map snd kvs"

text \<open>\<^verbatim>\<open>Array.prototype.findIndex\<close>; the result -1 is \<open>None\<close>.\<close>

fun findIndex :: "('a \<Rightarrow> bool) \<Rightarrow> 'a list \<Rightarrow> nat option" where
  "findIndex p [] = None"
| "findIndex p (a # as) =
     (if p a then Some 0 else map_option Suc (findIndex p as))"

text \<open>\<^verbatim>\<open>arr.splice(i, 1)\<close>.\<close>

definition splice1 :: "nat \<Rightarrow> 'a list \<Rightarrow> 'a list" where
  "splice1 i as = take i as @ drop (Suc i) as"

text \<open>The payload of every \<^verbatim>\<open>stateUpdate\<close>: both registries, whole.\<close>

definition snapshot :: "server \<Rightarrow> message" where
  "snapshot s = StateUpdate (Object_values (srv_users s)) (srv_fireLocations s)"

text \<open>\<^verbatim>\<open>io.emit\<close> delivers to every socket connected to the namespace;
  \<^verbatim>\<open>socket.emit\<close> to that socket alone.\<close>

definition io_emit :: "server \<Rightarrow> message \<Rightarrow> (socket_id \<times> message) list" where
  "io_emit s m = map (\<lambda>sid. (sid, m)) (srv_sockets s)"

definition socket_emit :: "socket_id \<Rightarrow> message \<Rightarrow> (socket_id \<times> message) list" where
  "socket_emit sid m = [(sid, m)]"

text \<open>
  The handlers of \<^verbatim>\<open>io.on('connection', ...)\<close>, each run to completion: the new state and
  the messages sent. Socket.IO adds a socket to the namespace before the connection
  handler runs and removes it before the \<^verbatim>\<open>disconnect\<close> handler runs.
\<close>

definition on_connection :: "server \<Rightarrow> socket_id \<Rightarrow> server \<times> (socket_id \<times> message) list" where
  "on_connection s sid =
     (let s1 = s\<lparr>srv_sockets := srv_sockets s @ [sid]\<rparr>
      in (s1, socket_emit sid (Init sid (Object_values (srv_users s1)) (srv_fireLocations s1))))"

definition on_updateUser ::
  "server \<Rightarrow> socket_id \<Rightarrow> user_data \<Rightarrow> server \<times> (socket_id \<times> message) list" where
  "on_updateUser s sid d =
     (let s1 = s\<lparr>srv_users := obj_set (srv_users s) sid
                  \<lparr>su_id = sid, su_x = ud_x d, su_y = ud_y d, su_floor = floor_or_1 (ud_floor d)\<rparr>\<rparr>
      in (s1, io_emit s1 (snapshot s1)))"

definition on_toggleFire ::
  "server \<Rightarrow> socket_id \<Rightarrow> fire_data \<Rightarrow> server \<times> (socket_id \<times> message) list" where
  "on_toggleFire s sid d =
     (let floor = floor_or_1 (fd_floor d);
          existingIdx = findIndex (\<lambda>f. fire_x f = fd_x d \<and> fire_y f = fd_y d \<and> fire_floor f = floor)
                           (srv_fireLocations s);
          s1 = (case existingIdx of
                  Some i \<Rightarrow> s\<lparr>srv_fireLocations := splice1 i (srv_fireLocations s)\<rparr>
                | None \<Rightarrow> s\<lparr>srv_fireLocations := srv_fireLocations s @
                               [\<lparr>fire_x = fd_x d, fire_y = fd_y d, fire_floor = floor\<rparr>]\<rparr>)
      in (s1, io_emit s1 (snapshot s1)))"

definition on_clearFire ::
  "server \<Rightarrow> socket_id \<Rightarrow> clear_data \<Rightarrow> server \<times> (socket_id \<times> message) list" where
  "on_clearFire s sid d =
     (let floor = floor_or_1 (cd_floor d);
          s1 = s\<lparr>srv_fireLocations := filter (\<lambda>f. fire_floor f \<noteq> floor) (srv_fireLocations s)\<rparr>
      in (s1, io_emit s1 (snapshot s1)))"

definition on_disconnect :: "server \<Rightarrow> socket_id \<Rightarrow> server \<times> (socket_id \<times> message) list" where
  "on_disconnect s sid =
     (let s0 = s\<lparr>srv_sockets := removeAll sid (srv_sockets s)\<rparr>;
          s1 = s0\<lparr>srv_users := obj_delete (srv_users s0) sid\<rparr>
      in (s1, io_emit s1 (snapshot s1)))"

fun handle :: "server \<Rightarrow> event \<Rightarrow> server \<times> (socket_id \<times> message) list" where
  "handle s (Connection sid) = on_connection s sid"
| "handle s (UpdateUser sid d) = on_updateUser s sid d"
| "handle s (ToggleFire sid d) = on_toggleFire s sid d"
| "handle s (ClearFire sid d) = on_clearFire s sid d"
| "handle s (Disconnect sid) = on_disconnect s sid"

text \<open>The socket an event arrives on, and the events that change a registry.\<close>

fun sender :: "event \<Rightarrow> socket_id" where
  "sender (Connection sid) = sid"
| "sender (UpdateUser sid d) = sid"
| "sender (ToggleFire sid d) = sid"
| "sender (ClearFire sid d) = sid"
| "sender (Disconnect sid) = sid"

fun is_mutation :: "event \<Rightarrow> bool" where
  "is_mutation (Connection sid) = False"
| "is_mutation _ = True"


text \<open>The registries at start-up, and the shape every stored entry has: the id inside an
  entry is the key it is stored under.\<close>

definition server0 :: server where
  "server0 = \<lparr>srv_users = [], srv_fireLocations = [], srv_sockets = []\<rparr>"

definition wf_server :: "server \<Rightarrow> bool" where
  "wf_server s \<longleftrightarrow> list_all (\<lambda>kv. su_id (snd kv) = fst kv) (srv_users s)"

section \<open>The observer (class EvacuationSystem)\<close>

text \<open>
  Cells, walls, exits and route entries are objects \<^verbatim>\<open>{x, y}\<close>: pairs. A user object of the
  observer may lack any property but its coordinates (the entries of a snapshot have no
  role, the users of \<^verbatim>\<open>spawnUsers\<close> have neither id nor floor).
\<close>

type_synonym point = "int \<times> int"

record user =
  user_id :: "string option"
  user_x :: int
  user_y :: int
  user_floor :: "int option"
  user_role :: "string option"
  user_ffAction :: "string option"
  user_path :: "point list"

record client =
  width :: int
  height :: int
  currentFloor :: int
  walls :: "point list"
  exits :: "point list"
  fireLocations :: "fire list"
  users :: "user list"
  myId :: "string option"

definition isWall :: "client \<Rightarrow> int \<Rightarrow> int \<Rightarrow> bool" where
  "isWall c x y = list_ex (\<lambda>w. fst w = x \<and> snd w = y) (walls c)"

definition isInBounds :: "client \<Rightarrow> int \<Rightarrow> int \<Rightarrow> bool" where
  "isInBounds c x y \<longleftrightarrow> x \<ge> 0 \<and> x < width c \<and> y \<ge> 0 \<and> y < height c"

subsection \<open>findPath\<close>

text \<open>A frontier entry \<^verbatim>\<open>{x, y, cost, parent}\<close>; \<^verbatim>\<open>parent: null\<close> is \<open>None\<close>.\<close>

datatype node = Node (node_x: int) (node_y: int) (cost: nat) (parent: "node option")

text \<open>The value \<^verbatim>\<open>Infinity\<close> of \<^verbatim>\<open>getCost\<close> is \<open>None\<close>; every other cost is a natural number.\<close>

abbreviation Infinity :: "nat option" where
  "Infinity \<equiv> None"

definition shouldAvoidFire :: "string \<Rightarrow> string \<Rightarrow> bool" where
  "shouldAvoidFire role ffAction \<longleftrightarrow>
     role \<noteq> ''firefighter'' \<or> (role = ''firefighter'' \<and> ffAction = ''evacuate'')"

text \<open>
  The closure \<^verbatim>\<open>getCost\<close>. \<^verbatim>\<open>Math.sqrt\<close> and the subtraction are read over the reals; on
  integer coordinates no value of \<^verbatim>\<open>(4.5 - dist) * 10\<close> with \<^verbatim>\<open>dist < 4\<close> lies near enough to
  an integer for rounding to change its floor (lemma \<open>surcharge_table\<close> lists them).
\<close>

definition getCost :: "client \<Rightarrow> string \<Rightarrow> string \<Rightarrow> int \<Rightarrow> int \<Rightarrow> nat option" where
  "getCost c role ffAction x y =
     (if isWall c x y then Infinity
      else Some
        (if fireLocations c \<noteq> [] \<and> shouldAvoidFire role ffAction
         then fold (\<lambda>fire cost.
                if fire_floor fire \<noteq> currentFloor c then cost
                else let dist = sqrt (real_of_int ((x - fire_x fire)\<^sup>2 + (y - fire_y fire)\<^sup>2))
                     in if dist < 4 then cost + nat \<lfloor>(4.5 - dist) * 10\<rfloor> else cost)
              (fireLocations c) 1
         else 1))"

definition dirs :: "(int \<times> int) list" where
  "dirs = [(0, 1), (0, -1), (1, 0), (-1, 0)]"

text \<open>The body of \<^verbatim>\<open>for (let d of dirs)\<close>: the entries pushed for one direction.\<close>

definition pushNeighbor ::
  "int \<Rightarrow> int \<Rightarrow> (int \<Rightarrow> int \<Rightarrow> nat option) \<Rightarrow> (point \<rightharpoonup> nat) \<Rightarrow> node \<Rightarrow> int \<times> int \<Rightarrow> node list" where
  "pushNeighbor W H getCost' visited cur d =
     (let nx = node_x cur + fst d;
          ny = node_y cur + snd d
      in if nx \<ge> 0 \<and> nx < W \<and> ny \<ge> 0 \<and> ny < H then
           (case getCost' nx ny of
              None \<Rightarrow> []
            | Some stepCost \<Rightarrow>
                let newCost = cost cur + stepCost
                in if (case visited (nx, ny) of None \<Rightarrow> True | Some v \<Rightarrow> v > newCost)
                   then [Node nx ny newCost (Some cur)] else [])
         else [])"

definition pushNeighbors ::
  "int \<Rightarrow> int \<Rightarrow> (int \<Rightarrow> int \<Rightarrow> nat option) \<Rightarrow> (point \<rightharpoonup> nat) \<Rightarrow> node \<Rightarrow> node list" where
  "pushNeighbors W H getCost' visited cur =
     concat (map (pushNeighbor W H getCost' visited cur) dirs)"

text \<open>
  The \<^verbatim>\<open>while (openSet.length > 0)\<close> loop, with the variables it captures as parameters.
  \<^verbatim>\<open>openSet.sort\<close> sorts in place and is stable (ECMAScript 2019), as \<open>sort_key\<close> is;
  \<^verbatim>\<open>shift\<close> takes the head. The key \<^verbatim>\<open>`${x},${y}`\<close> of the Map is the pair of coordinates.
  The result is \<^verbatim>\<open>nearestTarget\<close>, \<open>None\<close> for \<^verbatim>\<open>null\<close>. The variable \<^verbatim>\<open>curr\<close> is written \<open>cur\<close>.
  The loop always ends; the proof follows in the section on termination.
\<close>

function searchLoop ::
  "int \<Rightarrow> int \<Rightarrow> (int \<Rightarrow> int \<Rightarrow> nat option) \<Rightarrow> point list \<Rightarrow> node list \<Rightarrow> (point \<rightharpoonup> nat)
     \<Rightarrow> node option" where
  "searchLoop W H getCost' targets openSet visited =
     (case sort_key cost openSet of
        [] \<Rightarrow> None
      | cur # rest \<Rightarrow>
          if (case visited (node_x cur, node_y cur) of None \<Rightarrow> False | Some v \<Rightarrow> v \<le> cost cur)
          then searchLoop W H getCost' targets rest visited
          else if list_ex (\<lambda>t. fst t = node_x cur \<and> snd t = node_y cur) targets
          then Some cur
          else searchLoop W H getCost' targets
                 (rest @ pushNeighbors W H getCost' (visited((node_x cur, node_y cur) \<mapsto> cost cur)) cur)
                 (visited((node_x cur, node_y cur) \<mapsto> cost cur)))"
  by pat_completeness auto

text \<open>\<^verbatim>\<open>while (curr) { path.unshift({ x: curr.x, y: curr.y }); curr = curr.parent; }\<close>\<close>

fun reconstruct :: "node \<Rightarrow> point list \<Rightarrow> point list" where
  "reconstruct (Node x y c p) path =
     (case p of None \<Rightarrow> (x, y) # path | Some q \<Rightarrow> reconstruct q ((x, y) # path))"

text \<open>The goal set; only the coordinates of a target are ever read.\<close>

definition targetsOf :: "client \<Rightarrow> string \<Rightarrow> string \<Rightarrow> point list" where
  "targetsOf c role ffAction =
     (if role = ''firefighter'' \<and> ffAction = ''rescue'' then
        (let targets = filter (\<lambda>f. fire_floor f = currentFloor c) (fireLocations c)
         in if length targets = 0 then exits c else map (\<lambda>f. (fire_x f, fire_y f)) targets)
      else exits c)"

definition findPath :: "client \<Rightarrow> int \<Rightarrow> int \<Rightarrow> string \<Rightarrow> string \<Rightarrow> point list" where
  "findPath c startX startY role ffAction =
     (let targets = targetsOf c role ffAction;
          startNode = Node startX startY 0 None;
          nearestTarget = searchLoop (width c) (height c) (getCost c role ffAction) targets
                            [startNode] Map.empty
      in case nearestTarget of None \<Rightarrow> [] | Some n \<Rightarrow> reconstruct n [])"

subsection \<open>recalculate and the snapshot listeners\<close>

text \<open>
  \<^verbatim>\<open>user.ffAction || (user.role === 'firefighter' ? 'rescue' : 'evacuate')\<close>: a missing
  and an empty action are falsy. A missing role takes the default \<^verbatim>\<open>role = 'civilian'\<close> of
  \<^verbatim>\<open>findPath\<close>. The floor of the user is not read.
\<close>

definition actionOf :: "user \<Rightarrow> string" where
  "actionOf user =
     (case user_ffAction user of
        Some a \<Rightarrow> if a \<noteq> [] then a
                  else if user_role user = Some ''firefighter'' then ''rescue'' else ''evacuate''
      | None \<Rightarrow> if user_role user = Some ''firefighter'' then ''rescue'' else ''evacuate'')"

definition roleArg :: "user \<Rightarrow> string" where
  "roleArg user = (case user_role user of None \<Rightarrow> ''civilian'' | Some r \<Rightarrow> r)"

definition recalculate :: "client \<Rightarrow> client" where
  "recalculate c =
     c\<lparr>users := map (\<lambda>user. user\<lparr>user_path :=
                        findPath c (user_x user) (user_y user) (roleArg user) (actionOf user)\<rparr>)
                   (users c)\<rparr>"

text \<open>\<^verbatim>\<open>u => ({ ...u, path: [] })\<close> on an entry of a snapshot.\<close>

definition adopt :: "server_user \<Rightarrow> user" where
  "adopt u = \<lparr>user_id = Some (su_id u), user_x = su_x u, user_y = su_y u,
              user_floor = Some (su_floor u), user_role = None, user_ffAction = None,
              user_path = []\<rparr>"

fun receive :: "client \<Rightarrow> message \<Rightarrow> client" where
  "receive c (Init i us fs) =
     recalculate (c\<lparr>myId := Some i, users := map adopt us, fireLocations := fs\<rparr>)"
| "receive c (StateUpdate us fs) =
     recalculate (c\<lparr>users := map adopt us, fireLocations := fs\<rparr>)"

subsection \<open>The earlier revision in script.js\<close>

text \<open>
  \<^verbatim>\<open>script.js\<close> holds an earlier revision of the same class. Its \<^verbatim>\<open>findPath\<close> takes no role,
  its goal set is always the exits, its \<^verbatim>\<open>getCost\<close> counts every fire the observer holds,
  and its \<^verbatim>\<open>recalculate\<close> does nothing on a floor without exits. The loop is the same.
\<close>

definition getCost0 :: "client \<Rightarrow> int \<Rightarrow> int \<Rightarrow> nat option" where
  "getCost0 c x y =
     (if isWall c x y then Infinity
      else Some
        (if fireLocations c \<noteq> []
         then fold (\<lambda>fire cost.
                let dist = sqrt (real_of_int ((x - fire_x fire)\<^sup>2 + (y - fire_y fire)\<^sup>2))
                in if dist < 4 then cost + nat \<lfloor>(4.5 - dist) * 10\<rfloor> else cost)
              (fireLocations c) 1
         else 1))"

definition findPath0 :: "client \<Rightarrow> int \<Rightarrow> int \<Rightarrow> point list" where
  "findPath0 c startX startY =
     (let startNode = Node startX startY 0 None;
          nearestExit = searchLoop (width c) (height c) (getCost0 c) (exits c)
                          [startNode] Map.empty
      in case nearestExit of None \<Rightarrow> [] | Some n \<Rightarrow> reconstruct n [])"

definition recalculate0 :: "client \<Rightarrow> client" where
  "recalculate0 c =
     (if length (exits c) = 0 then c
      else c\<lparr>users := map (\<lambda>user. user\<lparr>user_path := findPath0 c (user_x user) (user_y user)\<rparr>)
                         (users c)\<rparr>)"

section \<open>Notions used to state the properties\<close>

text \<open>The cells inside the \<open>W\<close> by \<open>H\<close> bounds, the cell of a frontier entry, and the cells
  that the loop may still finalize: those without a recorded cost, or with a recorded
  cost above that of some frontier entry.\<close>

definition gridCells :: "int \<Rightarrow> int \<Rightarrow> point set" where
  "gridCells W H = {0..<W} \<times> {0..<H}"

definition nodeKey :: "node \<Rightarrow> point" where
  "nodeKey n = (node_x n, node_y n)"

definition unsettled :: "int \<Rightarrow> int \<Rightarrow> node list \<Rightarrow> (point \<rightharpoonup> nat) \<Rightarrow> point set" where
  "unsettled W H openSet visited =
     {k \<in> gridCells W H \<union> nodeKey ` set openSet.
        case visited k of None \<Rightarrow> True | Some v \<Rightarrow> \<exists>n \<in> set openSet. cost n < v}"

text \<open>
  Paths. Two cells are adjacent when they differ by exactly 1 in exactly one coordinate.
  A walk is a sequence of cells whose consecutive cells are adjacent and whose cells after
  the first all satisfy \<open>ok\<close>; nothing is asked of the first cell. A path is a walk with at
  least one cell. The cost of a path is the sum of the costs of the cells it steps onto,
  the first cell excluded.
\<close>

definition adjacent :: "point \<Rightarrow> point \<Rightarrow> bool" where
  "adjacent p q \<longleftrightarrow>
     (\<bar>fst p - fst q\<bar> = 1 \<and> snd p = snd q) \<or> (fst p = fst q \<and> \<bar>snd p - snd q\<bar> = 1)"

fun stepsOk :: "(point \<Rightarrow> bool) \<Rightarrow> point list \<Rightarrow> bool" where
  "stepsOk ok [] = True"
| "stepsOk ok [p] = True"
| "stepsOk ok (p # q # ps) = (adjacent p q \<and> ok q \<and> stepsOk ok (q # ps))"

definition validPath :: "(point \<Rightarrow> bool) \<Rightarrow> point list \<Rightarrow> bool" where
  "validPath ok ps \<longleftrightarrow> ps \<noteq> [] \<and> stepsOk ok ps"

definition passable :: "int \<Rightarrow> int \<Rightarrow> (int \<Rightarrow> int \<Rightarrow> nat option) \<Rightarrow> point \<Rightarrow> bool" where
  "passable W H getCost' p \<longleftrightarrow>
     0 \<le> fst p \<and> fst p < W \<and> 0 \<le> snd p \<and> snd p < H \<and> getCost' (fst p) (snd p) \<noteq> Infinity"

definition stepCostOf :: "(int \<Rightarrow> int \<Rightarrow> nat option) \<Rightarrow> point \<Rightarrow> nat" where
  "stepCostOf getCost' p = (case getCost' (fst p) (snd p) of None \<Rightarrow> 0 | Some v \<Rightarrow> v)"

definition pathCost :: "(int \<Rightarrow> int \<Rightarrow> nat option) \<Rightarrow> point list \<Rightarrow> nat" where
  "pathCost getCost' ps = sum_list (map (stepCostOf getCost') (tl ps))"

text \<open>The cells from the root of the parent chain of an entry down to the entry.\<close>

fun chain :: "node \<Rightarrow> point list" where
  "chain (Node x y c p) = (case p of None \<Rightarrow> [] | Some q \<Rightarrow> chain q) @ [(x, y)]"

text \<open>A cell of the observer's floor that a route may step onto: inside the bounds and not
  a wall.\<close>

definition walkable :: "client \<Rightarrow> point \<Rightarrow> bool" where
  "walkable c p \<longleftrightarrow> isInBounds c (fst p) (snd p) \<and> \<not> isWall c (fst p) (snd p)"

text \<open>The cost of a route for an occupant with the given role and action.\<close>

definition routeCost :: "client \<Rightarrow> string \<Rightarrow> string \<Rightarrow> point list \<Rightarrow> nat" where
  "routeCost c role ffAction ps = pathCost (getCost c role ffAction) ps"

text \<open>The Euclidean distance from a cell to a fire.\<close>

definition euclid :: "int \<Rightarrow> int \<Rightarrow> fire \<Rightarrow> real" where
  "euclid x y f = sqrt (real_of_int ((x - fire_x f)\<^sup>2 + (y - fire_y f)\<^sup>2))"

text \<open>
  The state of the loop, for a search from the cell \<open>s\<close>:
  every frontier entry carries a path from \<open>s\<close> to its cell and the cost of that path;
  a recorded cost is a lower bound of the cost of every path from \<open>s\<close> to that cell;
  no cell with a recorded cost is a target;
  \<open>s\<close> has the recorded cost 0 or a frontier entry of cost 0;
  and every edge out of a cell with a recorded cost has been relaxed.
\<close>

definition goodNode :: "int \<Rightarrow> int \<Rightarrow> (int \<Rightarrow> int \<Rightarrow> nat option) \<Rightarrow> point \<Rightarrow> node \<Rightarrow> bool" where
  "goodNode W H getCost' s n \<longleftrightarrow>
     validPath (passable W H getCost') (chain n) \<and> hd (chain n) = s
     \<and> pathCost getCost' (chain n) = cost n"

definition searchInv ::
  "int \<Rightarrow> int \<Rightarrow> (int \<Rightarrow> int \<Rightarrow> nat option) \<Rightarrow> point list \<Rightarrow> point \<Rightarrow> node list \<Rightarrow> (point \<rightharpoonup> nat)
     \<Rightarrow> bool" where
  "searchInv W H getCost' targets s openSet visited \<longleftrightarrow>
     (\<forall>n \<in> set openSet. goodNode W H getCost' s n)
   \<and> (\<forall>k v ps. visited k = Some v \<longrightarrow> validPath (passable W H getCost') ps \<longrightarrow> hd ps = s
         \<longrightarrow> last ps = k \<longrightarrow> v \<le> pathCost getCost' ps)
   \<and> (\<forall>k v. visited k = Some v \<longrightarrow> k \<notin> set targets)
   \<and> (visited s = Some 0 \<or> (\<exists>n \<in> set openSet. nodeKey n = s \<and> cost n = 0))
   \<and> (\<forall>k v q. visited k = Some v \<longrightarrow> adjacent k q \<longrightarrow> passable W H getCost' q \<longrightarrow>
         (\<exists>v'. visited q = Some v' \<and> v' \<le> v + stepCostOf getCost' q)
         \<or> (\<exists>n \<in> set openSet. nodeKey n = q \<and> cost n \<le> v + stepCostOf getCost' q))"

text \<open>The surcharge of one fire as a function of the squared distance: the sixteen values
  that \<^verbatim>\<open>Math.floor((4.5 - dist) * 10)\<close> takes on integer coordinates with \<^verbatim>\<open>dist < 4\<close>.\<close>

definition surchargeAt :: "int \<Rightarrow> nat" where
  "surchargeAt n =
     (if 0 \<le> n \<and> n < 16
      then [45, 35, 30, 27, 25, 22, 20, 18, 16, 15, 13, 11, 10, 8, 7, 6] ! nat n else 0)"

text \<open>A path for an occupant at \<open>start\<close>: it begins at \<open>start\<close>, steps only onto walkable cells,
  and ends at a cell of the occupant's goal set.\<close>

definition goalPath :: "client \<Rightarrow> string \<Rightarrow> string \<Rightarrow> point \<Rightarrow> point list \<Rightarrow> bool" where
  "goalPath c role ffAction start ps \<longleftrightarrow>
     validPath (walkable c) ps \<and> hd ps = start \<and> last ps \<in> set (targetsOf c role ffAction)"

text \<open>The hazards of the active floor, as cells.\<close>

definition hazardsOn :: "client \<Rightarrow> point list" where
  "hazardsOn c =
     map (\<lambda>f. (fire_x f, fire_y f)) (filter (\<lambda>f. fire_floor f = currentFloor c) (fireLocations c))"

text \<open>The earliest entry of least cost in a frontier: of two entries of equal cost the one
  nearer the front, which is the one pushed first.\<close>

fun firstMin :: "node list \<Rightarrow> node option" where
  "firstMin [] = None"
| "firstMin (n # ns) =
     (case firstMin ns of
        None \<Rightarrow> Some n
      | Some m \<Rightarrow> if cost n \<le> cost m then Some n else Some m)"

text \<open>Two small floors used as concrete inputs. The first is 5 by 3 with a wall in the
  middle of the bottom row, one exit at the right end of that row and one fire;
  the second is a corridor of three cells whose left cell is a wall.\<close>

definition demoFloor :: client where
  "demoFloor = \<lparr>width = 5, height = 3, currentFloor = 1, walls = [(2, 0)], exits = [(4, 0)],
                fireLocations = [\<lparr>fire_x = 2, fire_y = 2, fire_floor = 1\<rparr>,
                                 \<lparr>fire_x = 3, fire_y = 0, fire_floor = 2\<rparr>],
                users = [], myId = None\<rparr>"

definition corridor :: client where
  "corridor = \<lparr>width = 3, height = 1, currentFloor = 1, walls = [(0, 0)], exits = [(2, 0)],
               fireLocations = [], users = [], myId = None\<rparr>"

text \<open>A corridor whose exit lies behind a wall.\<close>

definition sealedRoom :: client where
  "sealedRoom = \<lparr>width = 3, height = 1, currentFloor = 1, walls = [(1, 0)], exits = [(2, 0)],
                 fireLocations = [], users = [], myId = None\<rparr>"

text \<open>A row of four cells with the exit at the left end, a wall next to it and a wall at
  the right end: the free cell between the walls has no way to the exit.\<close>

definition walledOff :: client where
  "walledOff = \<lparr>width = 4, height = 1, currentFloor = 1, walls = [(1, 0), (3, 0)], exits = [(0, 0)],
                fireLocations = [], users = [], myId = None\<rparr>"

text \<open>The first floor again, as another observer holds it: with users, and with the fires
  of the other floors in another order and number.\<close>

definition demoFloorBusy :: client where
  "demoFloorBusy = \<lparr>width = 5, height = 3, currentFloor = 1, walls = [(2, 0)], exits = [(4, 0)],
                    fireLocations = [\<lparr>fire_x = 1, fire_y = 1, fire_floor = 3\<rparr>,
                                     \<lparr>fire_x = 2, fire_y = 2, fire_floor = 1\<rparr>],
                    users = [\<lparr>user_id = Some ''a'', user_x = 3, user_y = 1, user_floor = Some 1,
                               user_role = None, user_ffAction = None, user_path = []\<rparr>],
                    myId = Some ''a''\<rparr>"


section \<open>The registries and the broadcast\<close>

lemma set_obj_set: "set (obj_set kvs k v) \<subseteq> insert (k, v) (set kvs)"
  by (induction kvs k v rule: obj_set.induct) auto

lemma obj_get_obj_set: "obj_get (obj_set kvs k v) k' = (if k' = k then Some v else obj_get kvs k')"
  by (induction kvs k v rule: obj_set.induct) (auto simp: obj_get_def)

lemma keys_obj_delete: "k \<notin> fst ` set (obj_delete kvs k)"
  by (auto simp: obj_delete_def)

lemma wf_server_handle: "wf_server s \<Longrightarrow> wf_server (fst (handle s e))"
proof (cases e)
  case (UpdateUser sid d)
  assume "wf_server s"
  then show ?thesis using UpdateUser
      set_obj_set[of "srv_users s" sid "\<lparr>su_id = sid, su_x = ud_x d, su_y = ud_y d, su_floor = floor_or_1 (ud_floor d)\<rparr>"]
    by (fastforce simp: wf_server_def on_updateUser_def Let_def list_all_iff)
next
  case (Disconnect sid)
  assume "wf_server s"
  then show ?thesis using Disconnect
    by (auto simp: wf_server_def on_disconnect_def Let_def list_all_iff obj_delete_def)
qed (auto simp: wf_server_def on_connection_def on_toggleFire_def on_clearFire_def Let_def split: option.splits)

lemma wf_server0: "wf_server server0"
  by (simp add: wf_server_def server0_def)

lemma wf_server_run: "wf_server s \<Longrightarrow> wf_server (fold (\<lambda>e s. fst (handle s e)) es s)"
  by (induction es arbitrary: s) (simp_all add: wf_server_handle)

lemma handle_sockets:
  "srv_sockets (fst (handle s e)) =
     (case e of Connection sid \<Rightarrow> srv_sockets s @ [sid]
      | Disconnect sid \<Rightarrow> removeAll sid (srv_sockets s)
      | _ \<Rightarrow> srv_sockets s)"
  by (cases e) (auto simp: on_connection_def on_updateUser_def on_toggleFire_def on_clearFire_def on_disconnect_def Let_def split: option.splits)

lemma handle_out:
  "is_mutation e \<Longrightarrow> snd (handle s e) = io_emit (fst (handle s e)) (snapshot (fst (handle s e)))"
  by (cases e) (auto simp: on_updateUser_def on_toggleFire_def on_clearFire_def on_disconnect_def Let_def split: option.splits)

text \<open>
  Claim C6. Every mutation the server accepts (user update, fire toggle, fire clear,
  disconnect) is followed by one \<^verbatim>\<open>stateUpdate\<close> to every connected socket, each carrying
  the whole user registry and the whole fire list as they are after the mutation. The
  socket that sent an update, toggle or clear is among the receivers. On disconnect the
  entry of the departing socket is deleted before the broadcast, so no entry of the
  snapshot carries its id, and the departing socket itself is no longer a receiver.
\<close>

theorem mutation_broadcasts_snapshot:
  assumes "is_mutation e" and "handle s e = (s', out)" and "wf_server s"
    and "sender e \<in> set (srv_sockets s)"
  shows "map fst out = srv_sockets s'
       \<and> list_all (\<lambda>rm. snd rm = StateUpdate (Object_values (srv_users s')) (srv_fireLocations s')) out
       \<and> (case e of
            Disconnect sid \<Rightarrow>
              srv_sockets s' = removeAll sid (srv_sockets s)
              \<and> srv_users s' = obj_delete (srv_users s) sid
              \<and> sid \<notin> su_id ` set (Object_values (srv_users s'))
          | _ \<Rightarrow>
              srv_sockets s' = srv_sockets s
              \<and> (sender e, StateUpdate (Object_values (srv_users s')) (srv_fireLocations s')) \<in> set out)"
proof -
  have s': "s' = fst (handle s e)" and out: "out = snd (handle s e)"
    using assms(2) by simp_all
  have o: "out = io_emit s' (snapshot s')"
    using handle_out[OF assms(1), of s] s' out by simp
  have wf: "wf_server s'" using wf_server_handle[OF assms(3), of e] s' by simp
  have 1: "map fst out = srv_sockets s'" by (simp add: o io_emit_def comp_def)
  have 2: "list_all (\<lambda>rm. snd rm = StateUpdate (Object_values (srv_users s')) (srv_fireLocations s')) out"
    by (simp add: o io_emit_def snapshot_def list_all_iff)
  have 3: "(case e of
            Disconnect sid \<Rightarrow>
              srv_sockets s' = removeAll sid (srv_sockets s)
              \<and> srv_users s' = obj_delete (srv_users s) sid
              \<and> sid \<notin> su_id ` set (Object_values (srv_users s'))
          | _ \<Rightarrow>
              srv_sockets s' = srv_sockets s
              \<and> (sender e, StateUpdate (Object_values (srv_users s')) (srv_fireLocations s')) \<in> set out)"
  proof (cases e)
    case (Disconnect sid)
    have u: "srv_users s' = obj_delete (srv_users s) sid"
      using s' Disconnect by (simp add: on_disconnect_def Let_def)
    have "sid \<notin> su_id ` set (Object_values (srv_users s'))"
    proof
      assume "sid \<in> su_id ` set (Object_values (srv_users s'))"
      then obtain kv where kv: "kv \<in> set (srv_users s')" "su_id (snd kv) = sid"
        by (auto simp: Object_values_def)
      with wf have "fst kv = sid" by (auto simp: wf_server_def list_all_iff)
      with kv(1) u show False by (auto simp: obj_delete_def)
    qed
    with u show ?thesis using Disconnect s' handle_sockets[of s e] by simp
  next
    case (Connection sid)
    with assms(1) show ?thesis by simp
  next
    case (UpdateUser sid d)
    then show ?thesis using assms(4) s' handle_sockets[of s e] o
      by (auto simp: io_emit_def snapshot_def)
  next
    case (ToggleFire sid d)
    then show ?thesis using assms(4) s' handle_sockets[of s e] o
      by (auto simp: io_emit_def snapshot_def)
  next
    case (ClearFire sid d)
    then show ?thesis using assms(4) s' handle_sockets[of s e] o
      by (auto simp: io_emit_def snapshot_def)
  qed
  from 1 2 3 show ?thesis by blast
qed


theorem mutation_broadcasts_snapshot_witness:
  "is_mutation (Disconnect ''a'')
   \<and> wf_server \<lparr>srv_users = [(''a'', \<lparr>su_id = ''a'', su_x = 1, su_y = 2, su_floor = 1\<rparr>),
                              (''b'', \<lparr>su_id = ''b'', su_x = 3, su_y = 2, su_floor = 1\<rparr>)],
                 srv_fireLocations = [], srv_sockets = [''a'', ''b'']\<rparr>
   \<and> snd (handle \<lparr>srv_users = [(''a'', \<lparr>su_id = ''a'', su_x = 1, su_y = 2, su_floor = 1\<rparr>),
                              (''b'', \<lparr>su_id = ''b'', su_x = 3, su_y = 2, su_floor = 1\<rparr>)],
                 srv_fireLocations = [], srv_sockets = [''a'', ''b'']\<rparr> (Disconnect ''a''))
       = [(''b'', StateUpdate [\<lparr>su_id = ''b'', su_x = 3, su_y = 2, su_floor = 1\<rparr>] [])]"
proof -
  let ?s = "\<lparr>srv_users = [(''a'', \<lparr>su_id = ''a'', su_x = 1, su_y = 2, su_floor = 1\<rparr>),
                              (''b'', \<lparr>su_id = ''b'', su_x = 3, su_y = 2, su_floor = 1\<rparr>)],
             srv_fireLocations = [], srv_sockets = [''a'', ''b'']\<rparr>"
  have h1: "is_mutation (Disconnect ''a'')" by simp
  have h2: "handle ?s (Disconnect ''a'') = (fst (handle ?s (Disconnect ''a'')), snd (handle ?s (Disconnect ''a'')))"
    by simp
  have h3: "wf_server ?s" by (simp add: wf_server_def)
  have h4: "sender (Disconnect ''a'') \<in> set (srv_sockets ?s)" by simp
  show ?thesis
    using h1 h3 mutation_broadcasts_snapshot[OF h1 h2 h3 h4]
    by (simp add: on_disconnect_def Let_def obj_delete_def io_emit_def snapshot_def Object_values_def)
qed

subsection \<open>Clearing a floor\<close>

text \<open>For every floor other than 0, a \<^verbatim>\<open>clearFire\<close> request for that floor leaves no fire of
  the floor, keeps every fire of another floor, in order and unchanged, and leaves the
  user registry as it was.\<close>

lemma clearFire_floor_scoped:
  assumes "f \<noteq> 0" and "handle s (ClearFire sid \<lparr>cd_floor = Some f\<rparr>) = (s', out)"
  shows "(\<forall>h \<in> set (srv_fireLocations s'). fire_floor h \<noteq> f)
       \<and> srv_fireLocations s' = filter (\<lambda>h. fire_floor h \<noteq> f) (srv_fireLocations s)
       \<and> srv_users s' = srv_users s"
  using assms by (auto simp: on_clearFire_def Let_def floor_or_1_def)

text \<open>A request for floor 0, like a request without a floor, clears floor 1.\<close>

lemma clearFire_default_floor:
  "cd_floor d = None \<or> cd_floor d = Some 0 \<Longrightarrow>
     srv_fireLocations (fst (handle s (ClearFire sid d)))
       = filter (\<lambda>h. fire_floor h \<noteq> 1) (srv_fireLocations s)"
  by (auto simp: on_clearFire_def Let_def floor_or_1_def)

text \<open>
  Claim C8 at a concrete request. The claim says that clearing floor \<open>f\<close> removes the
  fires of floor \<open>f\<close> and keeps every fire of another floor. The registry holds one fire,
  on floor 1, and the request names floor 0. \<^verbatim>\<open>data.floor || 1\<close> reads the number 0 as a
  missing floor, so the handler filters floor 1: the fire, whose floor is not 0, is gone
  and the registry is empty.
\<close>

theorem clearFire_floor_zero:
  "fire_floor \<lparr>fire_x = 2, fire_y = 2, fire_floor = 1\<rparr> \<noteq> 0
   \<and> \<lparr>fire_x = 2, fire_y = 2, fire_floor = 1\<rparr> \<in> set (srv_fireLocations
        \<lparr>srv_users = [], srv_fireLocations = [\<lparr>fire_x = 2, fire_y = 2, fire_floor = 1\<rparr>],
         srv_sockets = [''a'']\<rparr>)
   \<and> \<lparr>fire_x = 2, fire_y = 2, fire_floor = 1\<rparr> \<notin> set (srv_fireLocations (fst (handle
        \<lparr>srv_users = [], srv_fireLocations = [\<lparr>fire_x = 2, fire_y = 2, fire_floor = 1\<rparr>],
         srv_sockets = [''a'']\<rparr> (ClearFire ''a'' \<lparr>cd_floor = Some 0\<rparr>))))
   \<and> srv_fireLocations (fst (handle
        \<lparr>srv_users = [], srv_fireLocations = [\<lparr>fire_x = 2, fire_y = 2, fire_floor = 1\<rparr>],
         srv_sockets = [''a'']\<rparr> (ClearFire ''a'' \<lparr>cd_floor = Some 0\<rparr>))) = []"
  by (simp add: on_clearFire_def Let_def floor_or_1_def)

subsection \<open>What an update stores\<close>

text \<open>An update stores the reported position and floor under the sender's id, and a later
  update of the same socket replaces the earlier one.\<close>

lemma updateUser_stores_position:
  "obj_get (srv_users (fst (handle s (UpdateUser sid d)))) sid
     = Some \<lparr>su_id = sid, su_x = ud_x d, su_y = ud_y d, su_floor = floor_or_1 (ud_floor d)\<rparr>"
  by (simp add: on_updateUser_def Let_def obj_get_obj_set)

lemma updateUser_last_write_wins:
  "obj_get (srv_users (fst (handle (fst (handle s (UpdateUser sid d1))) (UpdateUser sid d2)))) sid
     = obj_get (srv_users (fst (handle s (UpdateUser sid d2)))) sid"
  by (simp add: on_updateUser_def Let_def obj_get_obj_set)

lemma adopt_no_role: "user_role (adopt u) = None \<and> user_ffAction (adopt u) = None"
  by (simp add: adopt_def)

lemma receive_roles:
  "map user_role (users (receive c (snapshot s))) = map (\<lambda>u. None) (srv_users s)"
  by (simp add: snapshot_def recalculate_def adopt_def Object_values_def comp_def)

text \<open>
  Claim C4 at a concrete report. The claim says that after an update carrying a role the
  stored entry carries that role. The entry stored by \<^verbatim>\<open>updateUser\<close> has the properties id, x,
  y and floor only: a report with role \<^verbatim>\<open>firefighter\<close> comes back to every observer as a user
  without a role.
\<close>

theorem updateUser_drops_role:
  "map user_role (users (receive c (snapshot (fst (handle server0
      (UpdateUser ''a'' \<lparr>ud_x = 3, ud_y = 4, ud_floor = Some 1, ud_role = Some ''firefighter''\<rparr>))))))
   = [None]"
  by (simp add: receive_roles on_updateUser_def Let_def server0_def)


section \<open>The search loop terminates\<close>

lemma finite_unsettled: "finite (unsettled W H os vis)"
  by (simp add: unsettled_def gridCells_def)

lemma sort_key_Cons:
  assumes "sort_key f xs = y # ys"
  shows "set xs = insert y (set ys)" and "length xs = Suc (length ys)"
    and "\<forall>z \<in> set ys. f y \<le> f z"
proof -
  have "set xs = set (sort_key f xs)" by simp
  then show "set xs = insert y (set ys)" using assms by simp
  have "length xs = length (sort_key f xs)" by simp
  then show "length xs = Suc (length ys)" using assms by simp
  have "sorted (map f (sort_key f xs))" by (rule sorted_sort_key)
  then show "\<forall>z \<in> set ys. f y \<le> f z" using assms by simp
qed

lemma pushNeighbor_eq:
  "pushNeighbor W H gc vis cur d =
    (if node_x cur + fst d \<ge> 0 \<and> node_x cur + fst d < W \<and> node_y cur + snd d \<ge> 0 \<and> node_y cur + snd d < H
        \<and> gc (node_x cur + fst d) (node_y cur + snd d) \<noteq> None
        \<and> (\<forall>v. vis (node_x cur + fst d, node_y cur + snd d) = Some v \<longrightarrow>
               v > cost cur + the (gc (node_x cur + fst d) (node_y cur + snd d)))
     then [Node (node_x cur + fst d) (node_y cur + snd d)
             (cost cur + the (gc (node_x cur + fst d) (node_y cur + snd d))) (Some cur)]
     else [])"
  by (auto simp: pushNeighbor_def Let_def split: option.splits)

lemma pushNeighbor_cases:
  assumes "n \<in> set (pushNeighbor W H gc vis cur d)"
  obtains stepCost where "node_x cur + fst d \<ge> 0" "node_x cur + fst d < W"
    "node_y cur + snd d \<ge> 0" "node_y cur + snd d < H"
    "gc (node_x cur + fst d) (node_y cur + snd d) = Some stepCost"
    "n = Node (node_x cur + fst d) (node_y cur + snd d) (cost cur + stepCost) (Some cur)"
    "\<forall>v. vis (node_x cur + fst d, node_y cur + snd d) = Some v \<longrightarrow> v > cost cur + stepCost"
  using assms unfolding pushNeighbor_eq
  by (auto split: if_splits)

lemma pushNeighbor_props:
  assumes "n \<in> set (pushNeighbor W H gc vis cur d)"
  shows "nodeKey n \<in> gridCells W H" and "cost cur \<le> cost n" and "parent n = Some cur"
  using assms by (auto elim!: pushNeighbor_cases simp: nodeKey_def gridCells_def)

lemma pushNeighbors_props:
  assumes "n \<in> set (pushNeighbors W H gc vis cur)"
  shows "nodeKey n \<in> gridCells W H" and "cost cur \<le> cost n" and "parent n = Some cur"
  using assms pushNeighbor_props[of n W H gc vis cur]
  by (auto simp: pushNeighbors_def)

lemma unsettled_skip:
  assumes "sort_key cost os = cur # rest"
  shows "unsettled W H rest vis \<subseteq> unsettled W H os vis"
  using sort_key_Cons(1)[OF assms] by (auto simp: unsettled_def split: option.splits)

lemma unsettled_expand:
  assumes s: "sort_key cost os = cur # rest"
    and v: "\<not> (case vis (node_x cur, node_y cur) of None \<Rightarrow> False | Some v \<Rightarrow> v \<le> cost cur)"
  shows "unsettled W H (rest @ pushNeighbors W H gc (vis((node_x cur, node_y cur) \<mapsto> cost cur)) cur)
           (vis((node_x cur, node_y cur) \<mapsto> cost cur))
         \<subset> unsettled W H os vis"
proof -
  let ?k = "(node_x cur, node_y cur)"
  let ?vis = "vis(?k \<mapsto> cost cur)"
  let ?os = "rest @ pushNeighbors W H gc ?vis cur"
  note sk = sort_key_Cons[OF s]
  have ge: "cost cur \<le> cost n" if "n \<in> set ?os" for n
    using that sk(3) pushNeighbors_props(2)[of n W H gc ?vis cur] by auto
  have key: "nodeKey n \<in> gridCells W H \<union> nodeKey ` set os" if "n \<in> set ?os" for n
    using that sk(1) pushNeighbors_props(1)[of n W H gc ?vis cur] by auto
  have curin: "cur \<in> set os" using sk(1) by simp
  have kin: "?k \<in> unsettled W H os vis"
  proof (cases "vis ?k")
    case None
    with curin show ?thesis by (force simp: unsettled_def nodeKey_def)
  next
    case (Some c)
    with v have "cost cur < c" by simp
    with curin Some show ?thesis by (force simp: unsettled_def nodeKey_def)
  qed
  have knot: "?k \<notin> unsettled W H ?os ?vis"
  proof
    assume "?k \<in> unsettled W H ?os ?vis"
    then obtain n where "n \<in> set ?os" "cost n < cost cur"
      unfolding unsettled_def by auto
    with ge show False by fastforce
  qed
  have sub: "unsettled W H ?os ?vis \<subseteq> unsettled W H os vis"
  proof
    fix k assume k: "k \<in> unsettled W H ?os ?vis"
    with knot have ne: "k \<noteq> ?k" by auto
    from k have dom: "k \<in> gridCells W H \<union> nodeKey ` set os"
      using key unfolding unsettled_def by blast
    show "k \<in> unsettled W H os vis"
    proof (cases "vis k")
      case None
      with dom show ?thesis by (simp add: unsettled_def)
    next
      case (Some c)
      with k ne obtain n where n: "n \<in> set ?os" "cost n < c"
        by (auto simp: unsettled_def simp del: set_append)
      from ge[OF n(1)] n(2) have "cost cur < c" by simp
      with curin Some dom show ?thesis by (auto simp: unsettled_def)
    qed
  qed
  from sub kin knot show ?thesis by blast
qed

termination searchLoop
proof (relation "measures [\<lambda>(W, H, gc, tg, os, vis). card (unsettled W H os vis),
                          \<lambda>(W, H, gc, tg, os, vis). length os]", goal_cases)
  case 1
  show ?case by simp
next
  case (2 W H gc tg os vis cur rest)
  have "card (unsettled W H rest vis) \<le> card (unsettled W H os vis)"
    using unsettled_skip[OF 2(1)] finite_unsettled by (simp add: card_mono)
  moreover have "length rest < length os"
    using sort_key_Cons(2)[OF 2(1)] by simp
  ultimately show ?case by auto
next
  case (3 W H gc tg os vis cur rest)
  have "card (unsettled W H (rest @ pushNeighbors W H gc (vis((node_x cur, node_y cur) \<mapsto> cost cur)) cur)
           (vis((node_x cur, node_y cur) \<mapsto> cost cur))) < card (unsettled W H os vis)"
    using unsettled_expand[where os=os and cur=cur and rest=rest and vis=vis and W=W and H=H and gc=gc, OF 3(1) 3(2)] finite_unsettled by (simp add: psubset_card_mono)
  then show ?case by simp
qed


declare searchLoop.simps [simp del]

section \<open>The hazard surcharge\<close>

lemma floor_surcharge:
  fixes n t :: int
  assumes lo: "(44 - t)\<^sup>2 < 100 * n \<or> 44 < t" and hi: "100 * n \<le> (45 - t)\<^sup>2" and t: "t \<le> 45" and n: "0 \<le> n"
  shows "\<lfloor>(4.5 - sqrt (real_of_int n)) * 10\<rfloor> = t"
proof -
  have e: "10 * sqrt (real_of_int n) = sqrt (real_of_int (100 * n))"
    by (simp add: real_sqrt_mult)
  have "sqrt (real_of_int (100 * n)) \<le> real_of_int (45 - t)"
  proof (rule real_le_lsqrt)
    show "0 \<le> real_of_int (45 - t)" using t by simp
    have "real_of_int (100 * n) \<le> real_of_int ((45 - t)\<^sup>2)" using hi by (simp only: of_int_le_iff)
    then show "real_of_int (100 * n) \<le> (real_of_int (45 - t))\<^sup>2" by simp
  qed
  moreover have "real_of_int (44 - t) < sqrt (real_of_int (100 * n))"
  proof (cases "44 < t")
    case True
    then have "real_of_int (44 - t) < 0" by simp
    moreover have "0 \<le> sqrt (real_of_int (100 * n))" using n by simp
    ultimately show ?thesis by linarith
  next
    case False
    with lo have "(44 - t)\<^sup>2 < 100 * n" by simp
    then have "real_of_int ((44 - t)\<^sup>2) < real_of_int (100 * n)" by (simp only: of_int_less_iff)
    then have "(real_of_int (44 - t))\<^sup>2 < real_of_int (100 * n)" by simp
    then show ?thesis by (rule real_less_rsqrt)
  qed
  ultimately have "real_of_int t \<le> (4.5 - sqrt (real_of_int n)) * 10"
    and "(4.5 - sqrt (real_of_int n)) * 10 < real_of_int t + 1"
    using e by (simp_all add: algebra_simps)
  then show ?thesis by linarith
qed

lemma sqrt_less_4: "0 \<le> n \<Longrightarrow> sqrt (real_of_int n) < 4 \<longleftrightarrow> n < 16"
proof -
  assume "0 \<le> n"
  have "sqrt (real_of_int n) < sqrt 16 \<longleftrightarrow> real_of_int n < 16" by (rule real_sqrt_less_iff)
  moreover have "sqrt 16 = (4::real)" using real_sqrt_abs[of 4] by simp
  ultimately show ?thesis by simp
qed

lemma surcharge_table:
  assumes "0 \<le> n" "n < 16"
  shows "nat \<lfloor>(4.5 - sqrt (real_of_int n)) * 10\<rfloor>
           = [45, 35, 30, 27, 25, 22, 20, 18, 16, 15, 13, 11, 10, 8, 7, 6] ! nat n"
proof -
  from assms consider "n = 0" | "n = 1" | "n = 2" | "n = 3" | "n = 4" | "n = 5" | "n = 6" | "n = 7"
    | "n = 8" | "n = 9" | "n = 10" | "n = 11" | "n = 12" | "n = 13" | "n = 14" | "n = 15"
    by atomize_elim presburger
  then show ?thesis
  proof cases
    case 1 then show ?thesis using floor_surcharge[of 45 0] by simp next
    case 2 then show ?thesis using floor_surcharge[of 35 1] by simp next
    case 3 then show ?thesis using floor_surcharge[of 30 2] by simp next
    case 4 then show ?thesis using floor_surcharge[of 27 3] by simp next
    case 5 then show ?thesis using floor_surcharge[of 25 4] by simp next
    case 6 then show ?thesis using floor_surcharge[of 22 5] by simp next
    case 7 then show ?thesis using floor_surcharge[of 20 6] by simp next
    case 8 then show ?thesis using floor_surcharge[of 18 7] by simp next
    case 9 then show ?thesis using floor_surcharge[of 16 8] by simp next
    case 10 then show ?thesis using floor_surcharge[of 15 9] by simp next
    case 11 then show ?thesis using floor_surcharge[of 13 10] by simp next
    case 12 then show ?thesis using floor_surcharge[of 11 11] by simp next
    case 13 then show ?thesis using floor_surcharge[of 10 12] by simp next
    case 14 then show ?thesis using floor_surcharge[of 8 13] by simp next
    case 15 then show ?thesis using floor_surcharge[of 7 14] by simp next
    case 16 then show ?thesis using floor_surcharge[of 6 15] by simp
  qed
qed



section \<open>Correctness of the search loop\<close>

subsection \<open>Paths and parent chains\<close>

lemma chain_not_Nil: "chain n \<noteq> []"
  by (cases n) simp

lemma last_chain: "last (chain n) = nodeKey n"
  by (cases n) (simp add: nodeKey_def)

lemma chain_child: "chain (Node x y c (Some q)) = chain q @ [(x, y)]"
  by simp

lemma reconstruct_chain: "reconstruct n path = chain n @ path"
proof (induction n path rule: reconstruct.induct)
  case (1 x y c p path)
  then show ?case by (cases p) simp_all
qed

lemma stepsOk_snoc:
  "stepsOk ok (ps @ [q]) \<longleftrightarrow> ps = [] \<or> (stepsOk ok ps \<and> adjacent (last ps) q \<and> ok q)"
proof (induction ok ps rule: stepsOk.induct)
  case (3 ok p q' ps)
  then show ?case by auto
qed simp_all

lemma validPath_snoc:
  "validPath ok (ps @ [q]) \<longleftrightarrow> ps = [] \<or> (validPath ok ps \<and> adjacent (last ps) q \<and> ok q)"
  by (auto simp: validPath_def stepsOk_snoc)

lemma pathCost_snoc: "ps \<noteq> [] \<Longrightarrow> pathCost gc (ps @ [q]) = pathCost gc ps + stepCostOf gc q"
  by (cases ps) (simp_all add: pathCost_def)

lemma pathCost_single: "pathCost gc [p] = 0"
  by (simp add: pathCost_def)

lemma adjacent_dirs: "adjacent p q \<longleftrightarrow> (\<exists>d \<in> set dirs. q = (fst p + fst d, snd p + snd d))"
proof -
  obtain px py qx qy where p: "p = (px, py)" and q: "q = (qx, qy)"
    by (cases p, cases q) blast
  show ?thesis unfolding p q adjacent_def dirs_def by (simp; linarith)
qed

subsection \<open>What a relaxation pushes\<close>

lemma pushNeighbors_cases:
  assumes "n \<in> set (pushNeighbors W H gc vis cur)"
  obtains d stepCost where "d \<in> set dirs"
    "passable W H gc (node_x cur + fst d, node_y cur + snd d)"
    "gc (node_x cur + fst d) (node_y cur + snd d) = Some stepCost"
    "n = Node (node_x cur + fst d) (node_y cur + snd d) (cost cur + stepCost) (Some cur)"
proof -
  from assms obtain d where d: "d \<in> set dirs" and n: "n \<in> set (pushNeighbor W H gc vis cur d)"
    by (auto simp: pushNeighbors_def)
  from n show ?thesis
  proof (rule pushNeighbor_cases)
    fix stepCost
    assume "0 \<le> node_x cur + fst d" "node_x cur + fst d < W" "0 \<le> node_y cur + snd d"
      "node_y cur + snd d < H" "gc (node_x cur + fst d) (node_y cur + snd d) = Some stepCost"
      "n = Node (node_x cur + fst d) (node_y cur + snd d) (cost cur + stepCost) (Some cur)"
    then show ?thesis using d that[of d stepCost] by (simp add: passable_def)
  qed
qed

lemma pushNeighbors_good:
  assumes g: "goodNode W H gc s cur" and n: "n \<in> set (pushNeighbors W H gc vis cur)"
  shows "goodNode W H gc s n"
proof -
  from n obtain d stepCost where d: "d \<in> set dirs"
    and p: "passable W H gc (node_x cur + fst d, node_y cur + snd d)"
    and c: "gc (node_x cur + fst d) (node_y cur + snd d) = Some stepCost"
    and e: "n = Node (node_x cur + fst d) (node_y cur + snd d) (cost cur + stepCost) (Some cur)"
    by (rule pushNeighbors_cases)
  let ?q = "(node_x cur + fst d, node_y cur + snd d)"
  have ch: "chain n = chain cur @ [?q]" using e by simp
  have adj: "adjacent (last (chain cur)) ?q"
    using d by (auto simp: last_chain nodeKey_def adjacent_dirs)
  have "validPath (passable W H gc) (chain n)"
    using g adj p by (simp add: ch validPath_snoc goodNode_def)
  moreover have "hd (chain n) = s"
    using g chain_not_Nil[of cur] by (simp add: ch goodNode_def)
  moreover have "pathCost gc (chain n) = cost n"
    using g c e chain_not_Nil[of cur] by (simp add: ch pathCost_snoc goodNode_def stepCostOf_def)
  ultimately show ?thesis by (simp add: goodNode_def)
qed

lemma pushNeighbors_complete:
  assumes a: "adjacent (nodeKey cur) q" and p: "passable W H gc q"
  shows "(\<exists>v'. vis q = Some v' \<and> v' \<le> cost cur + stepCostOf gc q)
       \<or> (\<exists>n \<in> set (pushNeighbors W H gc vis cur). nodeKey n = q \<and> cost n \<le> cost cur + stepCostOf gc q)"
proof -
  from a obtain d where d: "d \<in> set dirs" and q: "q = (node_x cur + fst d, node_y cur + snd d)"
    by (auto simp: adjacent_dirs nodeKey_def)
  from p obtain stepCost where c: "gc (node_x cur + fst d) (node_y cur + snd d) = Some stepCost"
    by (auto simp: passable_def q)
  have sc: "stepCostOf gc q = stepCost" by (simp add: stepCostOf_def q c)
  show ?thesis
  proof (cases "\<forall>v. vis q = Some v \<longrightarrow> v > cost cur + stepCost")
    case True
    let ?n = "Node (node_x cur + fst d) (node_y cur + snd d) (cost cur + stepCost) (Some cur)"
    have "pushNeighbor W H gc vis cur d = [?n]"
      using True p c unfolding pushNeighbor_eq by (simp add: q passable_def)
    then have "?n \<in> set (pushNeighbors W H gc vis cur)"
      using d by (force simp: pushNeighbors_def)
    moreover have "nodeKey ?n = q" by (simp add: nodeKey_def q)
    moreover have "cost ?n \<le> cost cur + stepCostOf gc q" by (simp add: sc)
    ultimately show ?thesis by blast
  next
    case False
    then obtain v where "vis q = Some v" "v \<le> cost cur + stepCost" by force
    then show ?thesis by (simp add: sc)
  qed
qed

subsection \<open>The invariant of the loop\<close>

lemma searchInv_init: "searchInv W H gc tg (sx, sy) [Node sx sy 0 None] Map.empty"
  by (simp add: searchInv_def goodNode_def validPath_def pathCost_def nodeKey_def)

lemma frontier_lower_bound:
  assumes inv: "searchInv W H gc tg s os vis"
  shows "validPath (passable W H gc) ps \<Longrightarrow> hd ps = s \<Longrightarrow> vis (last ps) = None
           \<Longrightarrow> \<exists>n \<in> set os. cost n \<le> pathCost gc ps"
proof (induction ps rule: rev_induct)
  case Nil
  then show ?case by (simp add: validPath_def)
next
  case (snoc q ps)
  show ?case
  proof (cases "ps = []")
    case True
    with snoc.prems have "vis s = None" by simp
    with inv obtain n where "n \<in> set os" "cost n = 0"
      unfolding searchInv_def by force
    then show ?thesis by force
  next
    case False
    with snoc.prems have vp: "validPath (passable W H gc) ps" and adj: "adjacent (last ps) q"
      and ok: "passable W H gc q" and hd: "hd ps = s" and vq: "vis q = None"
      by (simp_all add: validPath_snoc)
    have pc: "pathCost gc (ps @ [q]) = pathCost gc ps + stepCostOf gc q"
      using False by (rule pathCost_snoc)
    show ?thesis
    proof (cases "vis (last ps)")
      case None
      from snoc.IH[OF vp hd None] obtain n where "n \<in> set os" "cost n \<le> pathCost gc ps" by blast
      then show ?thesis using pc by force
    next
      case (Some v)
      from inv Some vp hd have le: "v \<le> pathCost gc ps"
        unfolding searchInv_def by blast
      from inv Some adj ok have
        "(\<exists>v'. vis q = Some v' \<and> v' \<le> v + stepCostOf gc q)
         \<or> (\<exists>n \<in> set os. nodeKey n = q \<and> cost n \<le> v + stepCostOf gc q)"
        unfolding searchInv_def by blast
      with vq obtain n where "n \<in> set os" "cost n \<le> v + stepCostOf gc q" by auto
      then show ?thesis using pc le by force
    qed
  qed
qed

text \<open>The entry that the loop takes is a cheapest one, so its cost is a lower bound for
  every path to a cell without a recorded cost.\<close>

lemma popped_lower_bound:
  assumes inv: "searchInv W H gc tg s os vis" and sk: "sort_key cost os = cur # rest"
    and vp: "validPath (passable W H gc) ps" and hd: "hd ps = s" and un: "vis (last ps) = None"
  shows "cost cur \<le> pathCost gc ps"
proof -
  from frontier_lower_bound[OF inv vp hd un] obtain n where n: "n \<in> set os" "cost n \<le> pathCost gc ps"
    by blast
  from sort_key_Cons[OF sk] n(1) have "cost cur \<le> cost n" by auto
  with n(2) show ?thesis by simp
qed

lemma popped_unvisited:
  assumes inv: "searchInv W H gc tg s os vis" and sk: "sort_key cost os = cur # rest"
    and ns: "\<not> (case vis (node_x cur, node_y cur) of None \<Rightarrow> False | Some v \<Rightarrow> v \<le> cost cur)"
  shows "vis (nodeKey cur) = None"
proof (cases "vis (nodeKey cur)")
  case (Some v)
  have "cur \<in> set os" using sort_key_Cons(1)[OF sk] by simp
  with inv have g: "goodNode W H gc s cur" unfolding searchInv_def by blast
  from inv Some g have "v \<le> pathCost gc (chain cur)"
    unfolding searchInv_def goodNode_def using last_chain[of cur] by blast
  with g have "v \<le> cost cur" by (simp add: goodNode_def)
  with ns Some show ?thesis by (simp add: nodeKey_def)
qed simp

lemma target_check: "list_ex (\<lambda>t. fst t = node_x cur \<and> snd t = node_y cur) tg \<longleftrightarrow> nodeKey cur \<in> set tg"
proof -
  have "(\<exists>t \<in> set tg. fst t = node_x cur \<and> snd t = node_y cur) \<longleftrightarrow> (node_x cur, node_y cur) \<in> set tg"
    by force
  then show ?thesis by (simp add: list_ex_iff nodeKey_def)
qed

lemma searchInv_start:
  "searchInv W H gc tg s os vis \<Longrightarrow> vis s = Some 0 \<or> (\<exists>n \<in> set os. nodeKey n = s \<and> cost n = 0)"
  unfolding searchInv_def by blast

lemma searchInv_target: "searchInv W H gc tg s os vis \<Longrightarrow> vis k = Some v \<Longrightarrow> k \<notin> set tg"
  unfolding searchInv_def by blast

lemma searchInv_good: "searchInv W H gc tg s os vis \<Longrightarrow> n \<in> set os \<Longrightarrow> goodNode W H gc s n"
  unfolding searchInv_def by blast

lemma searchInv_relaxed:
  "searchInv W H gc tg s os vis \<Longrightarrow> vis k = Some v \<Longrightarrow> adjacent k q \<Longrightarrow> passable W H gc q \<Longrightarrow>
     (\<exists>v'. vis q = Some v' \<and> v' \<le> v + stepCostOf gc q)
     \<or> (\<exists>n \<in> set os. nodeKey n = q \<and> cost n \<le> v + stepCostOf gc q)"
  unfolding searchInv_def by blast

lemma searchInv_skip:
  assumes inv: "searchInv W H gc tg s os vis" and sk: "sort_key cost os = cur # rest"
    and skip: "case vis (node_x cur, node_y cur) of None \<Rightarrow> False | Some v \<Rightarrow> v \<le> cost cur"
  shows "searchInv W H gc tg s rest vis"
proof -
  note so = sort_key_Cons[OF sk]
  from skip obtain vc where vc: "vis (nodeKey cur) = Some vc" "vc \<le> cost cur"
    by (auto simp: nodeKey_def split: option.splits)
  have 1: "\<forall>n \<in> set rest. goodNode W H gc s n"
    using inv so(1) unfolding searchInv_def by blast
  have 2: "\<forall>k v ps. vis k = Some v \<longrightarrow> validPath (passable W H gc) ps \<longrightarrow> hd ps = s
         \<longrightarrow> last ps = k \<longrightarrow> v \<le> pathCost gc ps"
    using inv unfolding searchInv_def by blast
  have 3: "\<forall>k v. vis k = Some v \<longrightarrow> k \<notin> set tg"
    using inv unfolding searchInv_def by blast
  have 4: "vis s = Some 0 \<or> (\<exists>n \<in> set rest. nodeKey n = s \<and> cost n = 0)"
  proof -
    from inv consider "vis s = Some 0" | n where "n \<in> set os" "nodeKey n = s" "cost n = 0"
      unfolding searchInv_def by blast
    then show ?thesis
    proof cases
      case 1 then show ?thesis by simp
    next
      case 2
      show ?thesis
      proof (cases "n = cur")
        case True
        with 2 vc show ?thesis by simp
      next
        case False
        with 2 so(1) show ?thesis by auto
      qed
    qed
  qed
  have 5: "\<forall>k v q. vis k = Some v \<longrightarrow> adjacent k q \<longrightarrow> passable W H gc q \<longrightarrow>
         (\<exists>v'. vis q = Some v' \<and> v' \<le> v + stepCostOf gc q)
         \<or> (\<exists>n \<in> set rest. nodeKey n = q \<and> cost n \<le> v + stepCostOf gc q)"
  proof (intro allI impI)
    fix k v q
    assume a: "vis k = Some v" "adjacent k q" "passable W H gc q"
    with inv have "(\<exists>v'. vis q = Some v' \<and> v' \<le> v + stepCostOf gc q)
         \<or> (\<exists>n \<in> set os. nodeKey n = q \<and> cost n \<le> v + stepCostOf gc q)"
      unfolding searchInv_def by blast
    then show "(\<exists>v'. vis q = Some v' \<and> v' \<le> v + stepCostOf gc q)
         \<or> (\<exists>n \<in> set rest. nodeKey n = q \<and> cost n \<le> v + stepCostOf gc q)"
    proof
      assume "\<exists>v'. vis q = Some v' \<and> v' \<le> v + stepCostOf gc q"
      then show ?thesis by blast
    next
      assume "\<exists>n \<in> set os. nodeKey n = q \<and> cost n \<le> v + stepCostOf gc q"
      then obtain n where n: "n \<in> set os" "nodeKey n = q" "cost n \<le> v + stepCostOf gc q" by blast
      show ?thesis
      proof (cases "n = cur")
        case True
        with n vc have "vis q = Some vc" "vc \<le> v + stepCostOf gc q" by simp_all
        then show ?thesis by blast
      next
        case False
        with n so(1) show ?thesis by auto
      qed
    qed
  qed
  from 1 2 3 4 5 show ?thesis unfolding searchInv_def by blast
qed

lemma searchInv_expand:
  assumes inv: "searchInv W H gc tg s os vis" and sk: "sort_key cost os = cur # rest"
    and ns: "\<not> (case vis (node_x cur, node_y cur) of None \<Rightarrow> False | Some v \<Rightarrow> v \<le> cost cur)"
    and nt: "nodeKey cur \<notin> set tg"
  shows "searchInv W H gc tg s
           (rest @ pushNeighbors W H gc (vis((node_x cur, node_y cur) \<mapsto> cost cur)) cur)
           (vis((node_x cur, node_y cur) \<mapsto> cost cur))"
proof -
  let ?kc = "(node_x cur, node_y cur)"
  let ?vis = "vis(?kc \<mapsto> cost cur)"
  let ?new = "pushNeighbors W H gc ?vis cur"
  note so = sort_key_Cons[OF sk]
  have kc: "nodeKey cur = ?kc" by (simp add: nodeKey_def)
  have un: "vis ?kc = None" using popped_unvisited[OF inv sk ns] by (simp add: nodeKey_def)
  have cin: "cur \<in> set os" using so(1) by simp
  have gcur: "goodNode W H gc s cur" using inv cin unfolding searchInv_def by blast
  have 1: "\<forall>n \<in> set (rest @ ?new). goodNode W H gc s n"
  proof
    fix n assume "n \<in> set (rest @ ?new)"
    then consider "n \<in> set rest" | "n \<in> set ?new" by auto
    then show "goodNode W H gc s n"
    proof cases
      case 1
      with inv so(1) show ?thesis unfolding searchInv_def by blast
    next
      case 2
      with gcur show ?thesis by (rule pushNeighbors_good)
    qed
  qed
  have 2: "\<forall>k v ps. ?vis k = Some v \<longrightarrow> validPath (passable W H gc) ps \<longrightarrow> hd ps = s
         \<longrightarrow> last ps = k \<longrightarrow> v \<le> pathCost gc ps"
  proof (intro allI impI)
    fix k v ps
    assume a: "?vis k = Some v" "validPath (passable W H gc) ps" "hd ps = s" "last ps = k"
    show "v \<le> pathCost gc ps"
    proof (cases "k = ?kc")
      case True
      with a(1) have v: "v = cost cur" by simp
      from True a(4) un have "vis (last ps) = None" by simp
      from popped_lower_bound[OF inv sk a(2) a(3) this] v show ?thesis by simp
    next
      case False
      with a(1) have "vis k = Some v" by simp
      with inv a(2-4) show ?thesis unfolding searchInv_def by blast
    qed
  qed
  have 3: "\<forall>k v. ?vis k = Some v \<longrightarrow> k \<notin> set tg"
  proof (intro allI impI)
    fix k v assume a: "?vis k = Some v"
    show "k \<notin> set tg"
    proof (cases "k = ?kc")
      case True
      with nt kc show ?thesis by simp
    next
      case False
      with a have "vis k = Some v" by simp
      with inv show ?thesis unfolding searchInv_def by blast
    qed
  qed
  have 4: "?vis s = Some 0 \<or> (\<exists>n \<in> set (rest @ ?new). nodeKey n = s \<and> cost n = 0)"
  proof -
    from inv consider "vis s = Some 0" | n where "n \<in> set os" "nodeKey n = s" "cost n = 0"
      unfolding searchInv_def by blast
    then show ?thesis
    proof cases
      case 1
      with un have "s \<noteq> ?kc" by auto
      with 1 show ?thesis by simp
    next
      case 2
      show ?thesis
      proof (cases "n = cur")
        case True
        with 2 kc have "?vis s = Some 0" by auto
        then show ?thesis by blast
      next
        case False
        with 2 so(1) have "n \<in> set (rest @ ?new)" by auto
        with 2 show ?thesis by blast
      qed
    qed
  qed
  have 5: "\<forall>k v q. ?vis k = Some v \<longrightarrow> adjacent k q \<longrightarrow> passable W H gc q \<longrightarrow>
         (\<exists>v'. ?vis q = Some v' \<and> v' \<le> v + stepCostOf gc q)
         \<or> (\<exists>n \<in> set (rest @ ?new). nodeKey n = q \<and> cost n \<le> v + stepCostOf gc q)"
  proof (intro allI impI)
    fix k v q
    assume a: "?vis k = Some v" "adjacent k q" "passable W H gc q"
    show "(\<exists>v'. ?vis q = Some v' \<and> v' \<le> v + stepCostOf gc q)
         \<or> (\<exists>n \<in> set (rest @ ?new). nodeKey n = q \<and> cost n \<le> v + stepCostOf gc q)"
    proof (cases "k = ?kc")
      case True
      with a(1) have v: "v = cost cur" by simp
      from True a(2) kc have "adjacent (nodeKey cur) q" by simp
      from pushNeighbors_complete[OF this a(3), of ?vis] show ?thesis
        unfolding v by auto
    next
      case False
      with a(1) have vk: "vis k = Some v" by simp
      with inv a(2,3) have "(\<exists>v'. vis q = Some v' \<and> v' \<le> v + stepCostOf gc q)
         \<or> (\<exists>n \<in> set os. nodeKey n = q \<and> cost n \<le> v + stepCostOf gc q)"
        unfolding searchInv_def by blast
      then show ?thesis
      proof
        assume "\<exists>v'. vis q = Some v' \<and> v' \<le> v + stepCostOf gc q"
        then obtain v' where v': "vis q = Some v'" "v' \<le> v + stepCostOf gc q" by blast
        with un have "q \<noteq> ?kc" by auto
        with v' have "?vis q = Some v'" by simp
        with v'(2) show ?thesis by blast
      next
        assume "\<exists>n \<in> set os. nodeKey n = q \<and> cost n \<le> v + stepCostOf gc q"
        then obtain n where n: "n \<in> set os" "nodeKey n = q" "cost n \<le> v + stepCostOf gc q" by blast
        show ?thesis
        proof (cases "n = cur")
          case True
          with n kc have "?vis q = Some (cost cur)" "cost cur \<le> v + stepCostOf gc q" by auto
          then show ?thesis by blast
        next
          case False
          with n so(1) have "n \<in> set (rest @ ?new)" by auto
          with n show ?thesis by blast
        qed
      qed
    qed
  qed
  from 1 2 3 4 5 show ?thesis unfolding searchInv_def by blast
qed

lemma closed_no_target:
  assumes inv: "searchInv W H gc tg s [] vis"
  shows "validPath (passable W H gc) ps \<Longrightarrow> hd ps = s \<Longrightarrow> vis (last ps) \<noteq> None"
proof (induction ps rule: rev_induct)
  case Nil
  then show ?case by (simp add: validPath_def)
next
  case (snoc q ps)
  show ?case
  proof (cases "ps = []")
    case True
    with snoc.prems searchInv_start[OF inv] show ?thesis by simp
  next
    case False
    with snoc.prems have vp: "validPath (passable W H gc) ps" and adj: "adjacent (last ps) q"
      and ok: "passable W H gc q" and hd: "hd ps = s"
      by (simp_all add: validPath_snoc)
    from snoc.IH[OF vp hd] obtain v where v: "vis (last ps) = Some v" by blast
    from searchInv_relaxed[OF inv v adj ok] show ?thesis by auto
  qed
qed

lemma searchLoop_correct:
  "searchInv W H gc tg s os vis \<Longrightarrow>
     (case searchLoop W H gc tg os vis of
        Some n \<Rightarrow> goodNode W H gc s n \<and> nodeKey n \<in> set tg
                  \<and> (\<forall>ps. validPath (passable W H gc) ps \<longrightarrow> hd ps = s \<longrightarrow> last ps \<in> set tg
                            \<longrightarrow> cost n \<le> pathCost gc ps)
      | None \<Rightarrow> \<forall>ps. validPath (passable W H gc) ps \<longrightarrow> hd ps = s \<longrightarrow> last ps \<notin> set tg)"
proof (induction W H gc tg os vis rule: searchLoop.induct)
  case (1 W H gc tg os vis)
  note inv = "1.prems"
  show ?case
  proof (cases "sort_key cost os")
    case Nil
    then have "os = []" using length_sort[of cost os] by simp
    with inv have inv0: "searchInv W H gc tg s [] vis" by simp
    have "\<forall>ps. validPath (passable W H gc) ps \<longrightarrow> hd ps = s \<longrightarrow> last ps \<notin> set tg"
    proof (intro allI impI)
      fix ps assume "validPath (passable W H gc) ps" "hd ps = s"
      from closed_no_target[OF inv0 this] obtain v where "vis (last ps) = Some v" by blast
      with inv show "last ps \<notin> set tg" by (rule searchInv_target)
    qed
    then show ?thesis using Nil by (subst searchLoop.simps) simp
  next
    case (Cons cur rest)
    show ?thesis
    proof (cases "case vis (node_x cur, node_y cur) of None \<Rightarrow> False | Some v \<Rightarrow> v \<le> cost cur")
      case True
      have "searchInv W H gc tg s rest vis" using inv Cons True by (rule searchInv_skip)
      moreover have "searchLoop W H gc tg os vis = searchLoop W H gc tg rest vis"
        using Cons True by (subst searchLoop.simps) simp
      ultimately show ?thesis using "1.IH"(1)[OF Cons True] by simp
    next
      case False
      show ?thesis
      proof (cases "nodeKey cur \<in> set tg")
        case True
        have cin: "cur \<in> set os" using sort_key_Cons(1)[OF Cons] by simp
        with inv have g: "goodNode W H gc s cur" by (rule searchInv_good)
        have "\<forall>ps. validPath (passable W H gc) ps \<longrightarrow> hd ps = s \<longrightarrow> last ps \<in> set tg
                            \<longrightarrow> cost cur \<le> pathCost gc ps"
        proof (intro allI impI)
          fix ps assume a: "validPath (passable W H gc) ps" "hd ps = s" "last ps \<in> set tg"
          from a(3) searchInv_target[OF inv] have "vis (last ps) = None" by (cases "vis (last ps)") auto
          from popped_lower_bound[OF inv Cons a(1,2) this] show "cost cur \<le> pathCost gc ps" .
        qed
        moreover have "searchLoop W H gc tg os vis = Some cur"
          using Cons False True by (subst searchLoop.simps) (simp add: target_check)
        ultimately show ?thesis using g True by simp
      next
        case nt: False
        have "searchInv W H gc tg s (rest @ pushNeighbors W H gc (vis((node_x cur, node_y cur) \<mapsto> cost cur)) cur)
           (vis((node_x cur, node_y cur) \<mapsto> cost cur))"
          using inv Cons False nt by (rule searchInv_expand)
        moreover have "searchLoop W H gc tg os vis =
            searchLoop W H gc tg (rest @ pushNeighbors W H gc (vis((node_x cur, node_y cur) \<mapsto> cost cur)) cur)
              (vis((node_x cur, node_y cur) \<mapsto> cost cur))"
          using Cons False nt by (subst searchLoop.simps) (simp add: target_check)
        moreover have "\<not> list_ex (\<lambda>t. fst t = node_x cur \<and> snd t = node_y cur) tg"
          using nt by (simp add: target_check)
        ultimately show ?thesis using "1.IH"(2)[OF Cons False] by (simp del: fun_upd_apply)
      qed
    qed
  qed
qed

section \<open>Evaluating the planner\<close>

text \<open>The cost function without the square root, and the rewrite rules that run
  \<open>findPath\<close> on a concrete floor.\<close>

lemma hazard_step:
  "(let dist = sqrt (real_of_int ((x - fx)\<^sup>2 + (y - fy)\<^sup>2))
    in if dist < 4 then acc + nat \<lfloor>(4.5 - dist) * 10\<rfloor> else acc)
   = acc + surchargeAt ((x - fx)\<^sup>2 + (y - fy)\<^sup>2)"
proof -
  let ?n = "(x - fx)\<^sup>2 + (y - fy)\<^sup>2"
  have n: "0 \<le> ?n" by simp
  show ?thesis
  proof (cases "?n < 16")
    case True
    then show ?thesis using surcharge_table[OF n True] sqrt_less_4[OF n]
      by (simp add: Let_def surchargeAt_def)
  next
    case False
    then show ?thesis using sqrt_less_4[OF n] by (simp add: Let_def surchargeAt_def)
  qed
qed

lemma getCost_eval:
  "getCost c role ffAction x y =
     (if isWall c x y then None
      else Some
        (if fireLocations c \<noteq> [] \<and> shouldAvoidFire role ffAction
         then fold (\<lambda>fire acc.
                if fire_floor fire \<noteq> currentFloor c then acc
                else acc + surchargeAt ((x - fire_x fire)\<^sup>2 + (y - fire_y fire)\<^sup>2))
              (fireLocations c) 1
         else 1))"
  unfolding getCost_def hazard_step ..

lemmas findPath_eval =
  findPath_def targetsOf_def searchLoop.simps pushNeighbors_def pushNeighbor_def dirs_def
  getCost_eval isWall_def shouldAvoidFire_def surchargeAt_def Let_def


lemma demoFloor_route:
  "findPath demoFloor 0 0 ''civilian'' ''evacuate'' = [(0, 0), (0, 1), (1, 1), (2, 1), (3, 1), (3, 0), (4, 0)]"
  by (simp add: findPath_eval demoFloor_def)

lemma demoFloor_rescue:
  "findPath demoFloor 0 0 ''firefighter'' ''rescue'' = [(0, 0), (0, 1), (0, 2), (1, 2), (2, 2)]"
  by (simp add: findPath_eval demoFloor_def)

lemma corridor_route:
  "findPath corridor 0 0 ''civilian'' ''evacuate'' = [(0, 0), (1, 0), (2, 0)]"
  by (simp add: findPath_eval corridor_def)

section \<open>The planner\<close>

subsection \<open>From the loop to findPath\<close>

lemma passable_getCost: "passable (width c) (height c) (getCost c role ffAction) = walkable c"
  by (rule ext) (simp add: passable_def walkable_def isInBounds_def getCost_def)

lemma findPath_cases:
  "findPath c startX startY role ffAction =
     (case searchLoop (width c) (height c) (getCost c role ffAction) (targetsOf c role ffAction)
             [Node startX startY 0 None] Map.empty of
        None \<Rightarrow> [] | Some n \<Rightarrow> chain n)"
  by (simp add: findPath_def Let_def reconstruct_chain split: option.splits)

lemma findPath_correct:
  "(case findPath c startX startY role ffAction of
      [] \<Rightarrow> \<forall>ps. \<not> goalPath c role ffAction (startX, startY) ps
    | p # ps' \<Rightarrow> goalPath c role ffAction (startX, startY) (p # ps')
         \<and> (\<forall>ps. goalPath c role ffAction (startX, startY) ps \<longrightarrow>
                routeCost c role ffAction (p # ps') \<le> routeCost c role ffAction ps))"
proof -
  let ?W = "width c" and ?H = "height c" and ?gc = "getCost c role ffAction"
  let ?tg = "targetsOf c role ffAction" and ?s = "(startX, startY)"
  let ?r = "searchLoop ?W ?H ?gc ?tg [Node startX startY 0 None] Map.empty"
  have inv: "searchInv ?W ?H ?gc ?tg ?s [Node startX startY 0 None] Map.empty"
    by (rule searchInv_init)
  note main = searchLoop_correct[OF inv, unfolded passable_getCost]
  show ?thesis
  proof (cases ?r)
    case None
    with main have "\<forall>ps. validPath (walkable c) ps \<longrightarrow> hd ps = ?s \<longrightarrow> last ps \<notin> set ?tg" by simp
    then have "\<forall>ps. \<not> goalPath c role ffAction ?s ps" by (auto simp: goalPath_def)
    moreover have "findPath c startX startY role ffAction = []"
      using None by (simp add: findPath_cases)
    ultimately show ?thesis by simp
  next
    case (Some n)
    with main have g: "goodNode ?W ?H ?gc ?s n" and t: "nodeKey n \<in> set ?tg"
      and m: "\<forall>ps. validPath (walkable c) ps \<longrightarrow> hd ps = ?s \<longrightarrow> last ps \<in> set ?tg
                    \<longrightarrow> cost n \<le> pathCost ?gc ps"
      by simp_all
    have fp: "findPath c startX startY role ffAction = chain n"
      using Some by (simp add: findPath_cases)
    from g have "validPath (walkable c) (chain n)" "hd (chain n) = ?s" "pathCost ?gc (chain n) = cost n"
      by (simp_all add: goodNode_def passable_getCost)
    with t m have "goalPath c role ffAction ?s (chain n)
         \<and> (\<forall>ps. goalPath c role ffAction ?s ps \<longrightarrow>
                routeCost c role ffAction (chain n) \<le> routeCost c role ffAction ps)"
      by (simp add: goalPath_def routeCost_def last_chain)
    then show ?thesis using chain_not_Nil[of n] unfolding fp by (cases "chain n") simp_all
  qed
qed

lemma stepsOk_nth:
  "stepsOk ok ps \<longleftrightarrow> (\<forall>i. Suc i < length ps \<longrightarrow> adjacent (ps ! i) (ps ! Suc i) \<and> ok (ps ! Suc i))"
proof (induction ok ps rule: stepsOk.induct)
  case (3 ok p q ps)
  show ?case
  proof
    assume a: "stepsOk ok (p # q # ps)"
    show "\<forall>i. Suc i < length (p # q # ps) \<longrightarrow>
            adjacent ((p # q # ps) ! i) ((p # q # ps) ! Suc i) \<and> ok ((p # q # ps) ! Suc i)"
    proof (intro allI impI)
      fix i assume i: "Suc i < length (p # q # ps)"
      show "adjacent ((p # q # ps) ! i) ((p # q # ps) ! Suc i) \<and> ok ((p # q # ps) ! Suc i)"
      proof (cases i)
        case 0
        with a show ?thesis by simp
      next
        case (Suc j)
        with a i 3 show ?thesis by simp
      qed
    qed
  next
    assume a: "\<forall>i. Suc i < length (p # q # ps) \<longrightarrow>
            adjacent ((p # q # ps) ! i) ((p # q # ps) ! Suc i) \<and> ok ((p # q # ps) ! Suc i)"
    from a[rule_format, of 0] have h: "adjacent p q \<and> ok q" by simp
    have "\<forall>i. Suc i < length (q # ps) \<longrightarrow> adjacent ((q # ps) ! i) ((q # ps) ! Suc i) \<and> ok ((q # ps) ! Suc i)"
    proof (intro allI impI)
      fix i assume "Suc i < length (q # ps)"
      with a[rule_format, of "Suc i"] show "adjacent ((q # ps) ! i) ((q # ps) ! Suc i) \<and> ok ((q # ps) ! Suc i)"
        by simp
    qed
    with 3 h show "stepsOk ok (p # q # ps)" by simp
  qed
qed simp_all

lemma demoFloor_route_cost:
  "routeCost demoFloor ''civilian'' ''evacuate'' [(0, 0), (0, 1), (1, 1), (2, 1), (3, 1), (3, 0), (4, 0)] = 161"
  by (simp add: routeCost_def pathCost_def stepCostOf_def getCost_eval isWall_def shouldAvoidFire_def
      surchargeAt_def demoFloor_def)

lemma sealedRoom_route: "findPath sealedRoom 0 0 ''civilian'' ''evacuate'' = []"
  by (simp add: findPath_eval sealedRoom_def)

text \<open>
  Claim C1. Whenever the planner returns a non-empty route, that route is a path from the
  occupant's cell to a cell of the goal set, and its cost (the sum of the costs of the
  cells stepped onto, the start cell excluded) is the least cost of all such paths.
\<close>

theorem findPath_optimal:
  assumes "findPath c startX startY role ffAction = route" and "route \<noteq> []"
  shows "goalPath c role ffAction (startX, startY) route
       \<and> (\<forall>ps. goalPath c role ffAction (startX, startY) ps \<longrightarrow>
              routeCost c role ffAction route \<le> routeCost c role ffAction ps)
       \<and> routeCost c role ffAction route
           = (LEAST k. \<exists>ps. goalPath c role ffAction (startX, startY) ps \<and> routeCost c role ffAction ps = k)"
proof -
  from assms obtain p ps' where r: "route = p # ps'" by (cases route) auto
  from findPath_correct[where c=c and startX=startX and startY=startY and role=role and ffAction=ffAction] assms(1) r
  have g: "goalPath c role ffAction (startX, startY) route"
    and m: "\<forall>ps. goalPath c role ffAction (startX, startY) ps \<longrightarrow>
              routeCost c role ffAction route \<le> routeCost c role ffAction ps"
    by simp_all
  have "(LEAST k. \<exists>ps. goalPath c role ffAction (startX, startY) ps \<and> routeCost c role ffAction ps = k)
          = routeCost c role ffAction route"
  proof (rule Least_equality)
    show "\<exists>ps. goalPath c role ffAction (startX, startY) ps
            \<and> routeCost c role ffAction ps = routeCost c role ffAction route"
      using g by blast
  next
    fix k
    assume "\<exists>ps. goalPath c role ffAction (startX, startY) ps \<and> routeCost c role ffAction ps = k"
    with m show "routeCost c role ffAction route \<le> k" by blast
  qed
  with g m show ?thesis by simp
qed

theorem findPath_optimal_witness:
  "findPath demoFloor 0 0 ''civilian'' ''evacuate'' = [(0, 0), (0, 1), (1, 1), (2, 1), (3, 1), (3, 0), (4, 0)]
   \<and> routeCost demoFloor ''civilian'' ''evacuate'' (findPath demoFloor 0 0 ''civilian'' ''evacuate'') = 161
   \<and> (LEAST k. \<exists>ps. goalPath demoFloor ''civilian'' ''evacuate'' (0, 0) ps
                     \<and> routeCost demoFloor ''civilian'' ''evacuate'' ps = k) = 161
   \<and> \<not> (\<exists>ps. goalPath demoFloor ''civilian'' ''evacuate'' (0, 0) ps
              \<and> routeCost demoFloor ''civilian'' ''evacuate'' ps < 161)"
proof -
  have h1: "findPath demoFloor 0 0 ''civilian'' ''evacuate'' = [(0, 0), (0, 1), (1, 1), (2, 1), (3, 1), (3, 0), (4, 0)]"
    by (rule demoFloor_route)
  have h2: "[(0, 0), (0, 1), (1, 1), (2, 1), (3, 1), (3, 0), (4, 0)] \<noteq> ([] :: point list)" by simp
  show ?thesis using h1 findPath_optimal[OF h1 h2] by (auto simp: demoFloor_route_cost not_less)
qed

text \<open>
  Claim C2. A non-empty route starts at the occupant's cell and ends at a cell of the goal
  set. If the route is empty, there is no path at all from the occupant's cell to a goal
  cell that steps only onto cells inside the bounds that are not walls.
\<close>

theorem findPath_reaches_goal:
  "(findPath c startX startY role ffAction \<noteq> [] \<longrightarrow>
       hd (findPath c startX startY role ffAction) = (startX, startY)
       \<and> last (findPath c startX startY role ffAction) \<in> set (targetsOf c role ffAction))
   \<and> (findPath c startX startY role ffAction = [] \<longrightarrow>
       \<not> (\<exists>ps. validPath (walkable c) ps \<and> hd ps = (startX, startY)
                 \<and> last ps \<in> set (targetsOf c role ffAction)))"
proof (cases "findPath c startX startY role ffAction")
  case Nil
  with findPath_correct[where c=c and startX=startX and startY=startY and role=role and ffAction=ffAction] show ?thesis
    by (simp add: goalPath_def)
next
  case (Cons p ps')
  with findPath_correct[where c=c and startX=startX and startY=startY and role=role and ffAction=ffAction]
  have "goalPath c role ffAction (startX, startY) (p # ps')" by simp
  then have "hd (p # ps') = (startX, startY)" "last (p # ps') \<in> set (targetsOf c role ffAction)"
    unfolding goalPath_def by blast+
  then show ?thesis unfolding Cons by simp
qed

theorem findPath_reaches_goal_witness:
  "findPath demoFloor 0 0 ''civilian'' ''evacuate'' \<noteq> []
   \<and> hd (findPath demoFloor 0 0 ''civilian'' ''evacuate'') = (0, 0)
   \<and> last (findPath demoFloor 0 0 ''civilian'' ''evacuate'') = (4, 0)
   \<and> findPath sealedRoom 0 0 ''civilian'' ''evacuate'' = []
   \<and> \<not> (\<exists>ps. validPath (walkable sealedRoom) ps \<and> hd ps = (0, 0)
              \<and> last ps \<in> set (targetsOf sealedRoom ''civilian'' ''evacuate''))"
  using findPath_reaches_goal[of demoFloor 0 0 "''civilian''" "''evacuate''"]
    findPath_reaches_goal[of sealedRoom 0 0 "''civilian''" "''evacuate''"]
  by (simp add: demoFloor_route sealedRoom_route)

text \<open>
  Claim C10. In every route the planner returns, consecutive cells differ by exactly 1 in
  exactly one coordinate, and every cell after the first is inside the bounds and is not a
  wall. Nothing is required of the first cell, the occupant's reported position.
\<close>

theorem findPath_route_steps:
  assumes "Suc i < length (findPath c startX startY role ffAction)"
  shows "adjacent (findPath c startX startY role ffAction ! i)
                  (findPath c startX startY role ffAction ! Suc i)
       \<and> isInBounds c (fst (findPath c startX startY role ffAction ! Suc i))
                       (snd (findPath c startX startY role ffAction ! Suc i))
       \<and> \<not> isWall c (fst (findPath c startX startY role ffAction ! Suc i))
                     (snd (findPath c startX startY role ffAction ! Suc i))"
proof -
  let ?r = "findPath c startX startY role ffAction"
  from assms obtain p ps' where r: "?r = p # ps'" by (cases ?r) auto
  with findPath_correct[where c=c and startX=startX and startY=startY and role=role and ffAction=ffAction]
  have "goalPath c role ffAction (startX, startY) ?r" by simp
  then have "stepsOk (walkable c) ?r" by (simp add: goalPath_def validPath_def)
  with assms have "adjacent (?r ! i) (?r ! Suc i) \<and> walkable c (?r ! Suc i)"
    by (simp add: stepsOk_nth)
  then show ?thesis by (simp add: walkable_def)
qed

theorem findPath_route_steps_witness:
  "Suc 0 < length (findPath corridor 0 0 ''civilian'' ''evacuate'')
   \<and> isWall corridor 0 0
   \<and> findPath corridor 0 0 ''civilian'' ''evacuate'' ! 0 = (0, 0)
   \<and> adjacent (0, 0) (findPath corridor 0 0 ''civilian'' ''evacuate'' ! Suc 0)
   \<and> \<not> isWall corridor (fst (findPath corridor 0 0 ''civilian'' ''evacuate'' ! Suc 0))
                        (snd (findPath corridor 0 0 ''civilian'' ''evacuate'' ! Suc 0))"
proof -
  have h: "Suc 0 < length (findPath corridor 0 0 ''civilian'' ''evacuate'')"
    by (simp add: corridor_route)
  show ?thesis using h findPath_route_steps[OF h]
    by (simp add: corridor_route) (simp add: isWall_def corridor_def)
qed

text \<open>An occupant standing on a goal cell gets the route of that cell alone: the first
  entry the loop takes is the start entry, and it is a target.\<close>

lemma findPath_start_goal:
  assumes "(startX, startY) \<in> set (targetsOf c role ffAction)"
  shows "findPath c startX startY role ffAction = [(startX, startY)]"
proof -
  have "list_ex (\<lambda>t. fst t = startX \<and> snd t = startY) (targetsOf c role ffAction)"
    using assms by (force simp: list_ex_iff)
  then have "searchLoop (width c) (height c) (getCost c role ffAction) (targetsOf c role ffAction)
          [Node startX startY 0 None] Map.empty = Some (Node startX startY 0 None)"
    by (subst searchLoop.simps) simp
  then show ?thesis by (simp add: findPath_cases)
qed

text \<open>An occupant none of whose four neighbouring cells is inside the bounds and free of
  walls, such as one two cells outside the bounds, gets the empty route or the route of
  its own cell.\<close>

lemma findPath_no_walkable_neighbour:
  assumes "\<forall>d \<in> set dirs. \<not> walkable c (startX + fst d, startY + snd d)"
  shows "findPath c startX startY role ffAction = []
       \<or> findPath c startX startY role ffAction = [(startX, startY)]"
proof (cases "findPath c startX startY role ffAction")
  case Nil
  then show ?thesis by simp
next
  case (Cons p ps')
  with findPath_correct[where c=c and startX=startX and startY=startY and role=role and ffAction=ffAction]
  have "goalPath c role ffAction (startX, startY) (p # ps')" by simp
  then have v: "stepsOk (walkable c) (p # ps')" and "hd (p # ps') = (startX, startY)"
    unfolding goalPath_def validPath_def by blast+
  then have p: "p = (startX, startY)" by simp
  have "ps' = []"
  proof (cases ps')
    case (Cons q qs)
    with v p have "adjacent (startX, startY) q" "walkable c q" by simp_all
    with assms show ?thesis by (auto simp: adjacent_dirs)
  qed simp
  with Cons p show ?thesis by simp
qed

text \<open>
  Claim C9, as amended. For an occupant whose cell is outside the bounds or inside a wall,
  the planner returns the empty route or the route of the occupant's cell alone exactly
  when the occupant's cell is itself a goal cell or no goal cell can be reached from it by
  steps onto cells inside the bounds that are not walls. When the occupant's cell is not a
  goal cell and a goal cell can be reached, the route has two or more cells. The statement
  asks nothing of the occupant's cell, so it holds for these occupants as for all others.
\<close>

theorem findPath_degenerate_iff:
  "(findPath c startX startY role ffAction = []
      \<or> findPath c startX startY role ffAction = [(startX, startY)])
   \<longleftrightarrow> ((startX, startY) \<in> set (targetsOf c role ffAction)
        \<or> \<not> (\<exists>ps. goalPath c role ffAction (startX, startY) ps))"
proof
  assume short: "findPath c startX startY role ffAction = []
      \<or> findPath c startX startY role ffAction = [(startX, startY)]"
  show "(startX, startY) \<in> set (targetsOf c role ffAction)
        \<or> \<not> (\<exists>ps. goalPath c role ffAction (startX, startY) ps)"
  proof (cases "findPath c startX startY role ffAction")
    case Nil
    with findPath_correct[where c=c and startX=startX and startY=startY and role=role and ffAction=ffAction]
    show ?thesis by simp
  next
    case (Cons p ps')
    with short have e: "findPath c startX startY role ffAction = [(startX, startY)]" by simp
    with findPath_correct[where c=c and startX=startX and startY=startY and role=role and ffAction=ffAction]
    have "goalPath c role ffAction (startX, startY) [(startX, startY)]" by simp
    then show ?thesis by (simp add: goalPath_def)
  qed
next
  assume "(startX, startY) \<in> set (targetsOf c role ffAction)
        \<or> \<not> (\<exists>ps. goalPath c role ffAction (startX, startY) ps)"
  then show "findPath c startX startY role ffAction = []
      \<or> findPath c startX startY role ffAction = [(startX, startY)]"
  proof
    assume "(startX, startY) \<in> set (targetsOf c role ffAction)"
    then show ?thesis by (simp add: findPath_start_goal)
  next
    assume no: "\<not> (\<exists>ps. goalPath c role ffAction (startX, startY) ps)"
    show ?thesis
    proof (cases "findPath c startX startY role ffAction")
      case Nil
      then show ?thesis by simp
    next
      case (Cons p ps')
      with findPath_correct[where c=c and startX=startX and startY=startY and role=role and ffAction=ffAction]
      have "goalPath c role ffAction (startX, startY) (p # ps')" by simp
      with no show ?thesis by blast
    qed
  qed
qed

theorem findPath_degenerate_iff_witness:
  "isWall walledOff 3 0 \<and> walkable walledOff (2, 0)
   \<and> findPath walledOff 3 0 ''civilian'' ''evacuate'' = []
   \<and> \<not> (\<exists>ps. goalPath walledOff ''civilian'' ''evacuate'' (3, 0) ps)
   \<and> \<not> isInBounds corridor (-2) 0
   \<and> findPath corridor (-2) 0 ''civilian'' ''evacuate'' = []
   \<and> \<not> (\<exists>ps. goalPath corridor ''civilian'' ''evacuate'' (-2, 0) ps)
   \<and> isWall corridor 0 0
   \<and> findPath corridor 0 0 ''civilian'' ''evacuate'' = [(0, 0), (1, 0), (2, 0)]
   \<and> (0, 0) \<notin> set (targetsOf corridor ''civilian'' ''evacuate'')
   \<and> (\<exists>ps. goalPath corridor ''civilian'' ''evacuate'' (0, 0) ps)"
proof -
  have w: "isWall walledOff 3 0" "walkable walledOff (2, 0)" "isWall corridor 0 0"
    "\<not> isInBounds corridor (-2) 0"
    by (simp_all add: isWall_def walkable_def isInBounds_def walledOff_def corridor_def)
  have r1: "findPath walledOff 3 0 ''civilian'' ''evacuate'' = []"
    by (simp add: findPath_eval walledOff_def)
  have r2: "findPath corridor (-2) 0 ''civilian'' ''evacuate'' = []"
    by (simp add: findPath_eval corridor_def)
  have t: "(3, 0) \<notin> set (targetsOf walledOff ''civilian'' ''evacuate'')"
    "(-2, 0) \<notin> set (targetsOf corridor ''civilian'' ''evacuate'')"
    "(0, 0) \<notin> set (targetsOf corridor ''civilian'' ''evacuate'')"
    by (simp_all add: targetsOf_def walledOff_def corridor_def)
  show ?thesis
    using w r1 r2 t corridor_route
      findPath_degenerate_iff[of walledOff 3 0 "''civilian''" "''evacuate''"]
      findPath_degenerate_iff[of corridor "-2" 0 "''civilian''" "''evacuate''"]
      findPath_degenerate_iff[of corridor 0 0 "''civilian''" "''evacuate''"]
    by simp
qed

text \<open>The claim as stated fails for an occupant inside a wall next to a free cell, and
  for an occupant one cell outside the bounds next to a free border cell: both get a
  route of several cells.\<close>

theorem findPath_wall_start_counterexample:
  "isWall corridor 0 0
   \<and> findPath corridor 0 0 ''civilian'' ''evacuate'' = [(0, 0), (1, 0), (2, 0)]
   \<and> \<not> isInBounds demoFloor (-1) 1
   \<and> findPath demoFloor (-1) 1 ''firefighter'' ''rescue'' = [(-1, 1), (0, 1), (0, 2), (1, 2), (2, 2)]"
  by (simp add: corridor_route) (simp add: findPath_eval isInBounds_def demoFloor_def corridor_def)

text \<open>
  Claim C5 at a concrete snapshot. The observer shows floor 1 and receives a snapshot with
  one occupant whose floor is 2. The claim says that this occupant is never routed
  against the geometry of the active floor. \<^verbatim>\<open>recalculate\<close> calls \<^verbatim>\<open>findPath\<close> for every user of
  the snapshot, and \<^verbatim>\<open>findPath\<close> reads the walls, exits and fires of the active floor: the
  occupant of floor 2 gets the route around the wall of floor 1 to the exit of floor 1.
\<close>

theorem recalculate_other_floor:
  "currentFloor demoFloor = 1
   \<and> map (\<lambda>u. (user_floor u, user_path u))
        (users (receive demoFloor
           (StateUpdate [\<lparr>su_id = ''a'', su_x = 0, su_y = 0, su_floor = 2\<rparr>] (fireLocations demoFloor))))
     = [(Some 2, [(0, 0), (0, 1), (1, 1), (2, 1), (3, 1), (3, 0), (4, 0)])]"
  by (simp add: recalculate_def adopt_def roleArg_def actionOf_def) (simp add: findPath_eval demoFloor_def)

lemma findPath_users: "findPath (c\<lparr>users := us\<rparr>) = findPath c"
proof -
  have "getCost (c\<lparr>users := us\<rparr>) = getCost c"
    by (intro ext) (simp add: getCost_def isWall_def)
  then show ?thesis
    by (intro ext) (simp add: findPath_def targetsOf_def Let_def)
qed

lemma recalculate_ignores_floor:
  "map user_path (users (recalculate (c\<lparr>users := map (\<lambda>u. u\<lparr>user_floor := f u\<rparr>) (users c)\<rparr>)))
     = map user_path (users (recalculate c))"
  by (simp add: recalculate_def findPath_users roleArg_def actionOf_def comp_def)

subsection \<open>The cost of a cell\<close>

lemma fold_hazards:
  "fold (\<lambda>fire acc.
           if fire_floor fire \<noteq> cf then acc
           else let dist = sqrt (real_of_int ((x - fire_x fire)\<^sup>2 + (y - fire_y fire)\<^sup>2))
                in if dist < 4 then acc + nat \<lfloor>(4.5 - dist) * 10\<rfloor> else acc) fs a
   = a + (\<Sum>f\<leftarrow>filter (\<lambda>f. fire_floor f = cf \<and> euclid x y f < 4) fs.
            nat \<lfloor>(4.5 - euclid x y f) * 10\<rfloor>)"
  by (induction fs arbitrary: a) (simp_all add: euclid_def Let_def)

lemma surcharge_nonneg: "euclid x y f < 4 \<Longrightarrow> 0 \<le> \<lfloor>(4.5 - euclid x y f) * 10\<rfloor>"
  by simp

lemma int_sum_list_nat:
  "\<forall>f \<in> set fs. 0 \<le> g f \<Longrightarrow> int (\<Sum>f\<leftarrow>fs. nat (g f)) = (\<Sum>f\<leftarrow>fs. g f)"
  by (induction fs) simp_all

text \<open>
  Claim C3. The cost of a candidate cell is infinite if the cell is a wall. Otherwise, for
  a civilian and for a firefighter whose action is evacuate, it is 1 plus, for every fire
  of the floor in effect at Euclidean distance \<open>d < 4\<close> from the cell, the floor of
  \<open>(4.5 - d) * 10\<close>, all summed with no cap; and for a firefighter whose action is
  rescue it is exactly 1, whatever fires are near.
\<close>

theorem getCost_value:
  "(isWall c x y \<longrightarrow> getCost c role ffAction x y = Infinity)
   \<and> (\<not> isWall c x y \<and> (role = ''civilian'' \<or> (role = ''firefighter'' \<and> ffAction = ''evacuate'')) \<longrightarrow>
        map_option int (getCost c role ffAction x y)
          = Some (1 + (\<Sum>f\<leftarrow>filter (\<lambda>f. fire_floor f = currentFloor c \<and> euclid x y f < 4) (fireLocations c).
                         \<lfloor>(4.5 - euclid x y f) * 10\<rfloor>)))
   \<and> (\<not> isWall c x y \<and> role = ''firefighter'' \<and> ffAction = ''rescue'' \<longrightarrow>
        getCost c role ffAction x y = Some 1)"
proof -
  let ?near = "filter (\<lambda>f. fire_floor f = currentFloor c \<and> euclid x y f < 4) (fireLocations c)"
  have nn: "\<forall>f \<in> set ?near. 0 \<le> \<lfloor>(4.5 - euclid x y f) * 10\<rfloor>"
    using surcharge_nonneg by simp
  have s: "int (\<Sum>f\<leftarrow>?near. nat \<lfloor>(4.5 - euclid x y f) * 10\<rfloor>) = (\<Sum>f\<leftarrow>?near. \<lfloor>(4.5 - euclid x y f) * 10\<rfloor>)"
    using nn by (rule int_sum_list_nat)
  have 1: "isWall c x y \<longrightarrow> getCost c role ffAction x y = Infinity"
    by (simp add: getCost_def)
  have 2: "\<not> isWall c x y \<and> (role = ''civilian'' \<or> (role = ''firefighter'' \<and> ffAction = ''evacuate'')) \<longrightarrow>
        map_option int (getCost c role ffAction x y)
          = Some (1 + (\<Sum>f\<leftarrow>?near. \<lfloor>(4.5 - euclid x y f) * 10\<rfloor>))"
  proof
    assume a: "\<not> isWall c x y \<and> (role = ''civilian'' \<or> (role = ''firefighter'' \<and> ffAction = ''evacuate''))"
    then have av: "shouldAvoidFire role ffAction" by (auto simp: shouldAvoidFire_def)
    show "map_option int (getCost c role ffAction x y)
          = Some (1 + (\<Sum>f\<leftarrow>?near. \<lfloor>(4.5 - euclid x y f) * 10\<rfloor>))"
    proof (cases "fireLocations c = []")
      case True
      with a show ?thesis by (simp add: getCost_def)
    next
      case False
      with a av have "getCost c role ffAction x y
          = Some (1 + (\<Sum>f\<leftarrow>?near. nat \<lfloor>(4.5 - euclid x y f) * 10\<rfloor>))"
        unfolding getCost_def fold_hazards by simp
      then show ?thesis using s by simp
    qed
  qed
  have 3: "\<not> isWall c x y \<and> role = ''firefighter'' \<and> ffAction = ''rescue'' \<longrightarrow>
        getCost c role ffAction x y = Some 1"
    by (simp add: getCost_def shouldAvoidFire_def)
  from 1 2 3 show ?thesis by blast
qed

theorem getCost_value_witness:
  "isWall demoFloor 2 0 \<and> getCost demoFloor ''civilian'' ''evacuate'' 2 0 = Infinity
   \<and> \<not> isWall demoFloor 1 1
   \<and> getCost demoFloor ''civilian'' ''evacuate'' 1 1 = Some 31
   \<and> (\<Sum>f\<leftarrow>filter (\<lambda>f. fire_floor f = currentFloor demoFloor \<and> euclid 1 1 f < 4) (fireLocations demoFloor).
         \<lfloor>(4.5 - euclid 1 1 f) * 10\<rfloor>) = 30
   \<and> getCost demoFloor ''firefighter'' ''evacuate'' 1 1 = Some 31
   \<and> getCost demoFloor ''firefighter'' ''rescue'' 1 1 = Some 1"
proof -
  have w: "isWall demoFloor 2 0" "\<not> isWall demoFloor 1 1"
    by (simp_all add: isWall_def demoFloor_def)
  have e: "getCost demoFloor ''civilian'' ''evacuate'' 1 1 = Some 31"
    "getCost demoFloor ''firefighter'' ''evacuate'' 1 1 = Some 31"
    by (simp_all add: getCost_eval isWall_def shouldAvoidFire_def surchargeAt_def demoFloor_def)
  show ?thesis
    using w e getCost_value[of demoFloor 2 0 "''civilian''" "''evacuate''"]
      getCost_value[of demoFloor 1 1 "''civilian''" "''evacuate''"]
      getCost_value[of demoFloor 1 1 "''firefighter''" "''rescue''"]
    by simp
qed

subsection \<open>What the planner depends on\<close>

lemma fold_hazardsOn:
  "fold (\<lambda>fire acc. if fire_floor fire \<noteq> cf then acc else g (fire_x fire, fire_y fire) acc) fs a
   = fold g (map (\<lambda>f. (fire_x f, fire_y f)) (filter (\<lambda>f. fire_floor f = cf) fs)) a"
  by (induction fs arbitrary: a) simp_all

lemma getCost_hazardsOn:
  "getCost c role ffAction x y =
     (if isWall c x y then Infinity
      else Some
        (if shouldAvoidFire role ffAction
         then fold (\<lambda>p acc.
                let dist = sqrt (real_of_int ((x - fst p)\<^sup>2 + (y - snd p)\<^sup>2))
                in if dist < 4 then acc + nat \<lfloor>(4.5 - dist) * 10\<rfloor> else acc)
              (hazardsOn c) 1
         else 1))"
proof (cases "fireLocations c = []")
  case True
  then show ?thesis by (simp add: getCost_def hazardsOn_def)
next
  case False
  have "fold (\<lambda>fire acc.
                if fire_floor fire \<noteq> currentFloor c then acc
                else let dist = sqrt (real_of_int ((x - fire_x fire)\<^sup>2 + (y - fire_y fire)\<^sup>2))
                     in if dist < 4 then acc + nat \<lfloor>(4.5 - dist) * 10\<rfloor> else acc)
              (fireLocations c) 1
        = fold (\<lambda>p acc.
                let dist = sqrt (real_of_int ((x - fst p)\<^sup>2 + (y - snd p)\<^sup>2))
                in if dist < 4 then acc + nat \<lfloor>(4.5 - dist) * 10\<rfloor> else acc)
              (hazardsOn c) 1"
    unfolding hazardsOn_def by (subst fold_hazardsOn[symmetric]) (simp cong: if_cong)
  with False show ?thesis by (simp add: getCost_def)
qed

lemma targetsOf_hazardsOn:
  "targetsOf c role ffAction =
     (if role = ''firefighter'' \<and> ffAction = ''rescue''
      then (if hazardsOn c = [] then exits c else hazardsOn c) else exits c)"
  by (simp add: targetsOf_def hazardsOn_def Let_def)

lemma findPath_inputs:
  assumes "width c = width c'" "height c = height c'" "walls c = walls c'" "exits c = exits c'"
    and "hazardsOn c = hazardsOn c'"
  shows "findPath c startX startY role ffAction = findPath c' startX startY role ffAction"
proof -
  have "isWall c = isWall c'" using assms(3) by (intro ext) (simp add: isWall_def)
  then have "getCost c role ffAction = getCost c' role ffAction"
    using assms(5) by (intro ext) (simp add: getCost_hazardsOn)
  moreover have "targetsOf c role ffAction = targetsOf c' role ffAction"
    using assms(4,5) by (simp add: targetsOf_hazardsOn)
  ultimately show ?thesis using assms(1,2) by (simp add: findPath_def)
qed

subsection \<open>The order in which frontier entries are taken\<close>

lemma firstMin_None: "firstMin os = None \<longleftrightarrow> os = []"
  by (induction os) (auto split: option.splits)

lemma firstMin_split:
  "firstMin os = Some cur \<Longrightarrow>
     \<exists>pre post. os = pre @ cur # post \<and> list_all (\<lambda>n. cost cur < cost n) pre
                 \<and> list_all (\<lambda>n. cost cur \<le> cost n) post"
proof (induction os arbitrary: cur)
  case Nil
  then show ?case by simp
next
  case (Cons n ns)
  show ?case
  proof (cases "firstMin ns")
    case None
    then have "ns = []" by (simp add: firstMin_None)
    with Cons.prems have "n # ns = [] @ cur # [] \<and> list_all (\<lambda>k. cost cur < cost k) []
                   \<and> list_all (\<lambda>k. cost cur \<le> cost k) []" by simp
    then show ?thesis by blast
  next
    case (Some m)
    from Cons.IH[OF Some] obtain pre post where
      ns: "ns = pre @ m # post" and pre: "list_all (\<lambda>k. cost m < cost k) pre"
      and post: "list_all (\<lambda>k. cost m \<le> cost k) post" by blast
    show ?thesis
    proof (cases "cost n \<le> cost m")
      case True
      with Cons.prems Some have c: "cur = n" by simp
      have "list_all (\<lambda>k. cost n \<le> cost k) ns"
        using True pre post unfolding ns by (auto simp: list_all_iff)
      then have "n # ns = [] @ cur # ns \<and> list_all (\<lambda>k. cost cur < cost k) []
                   \<and> list_all (\<lambda>k. cost cur \<le> cost k) ns"
        using c by simp
      then show ?thesis by blast
    next
      case False
      with Cons.prems Some have c: "cur = m" by simp
      have "n # ns = (n # pre) @ cur # post \<and> list_all (\<lambda>k. cost cur < cost k) (n # pre)
                   \<and> list_all (\<lambda>k. cost cur \<le> cost k) post"
        using False pre post c ns by simp
      then show ?thesis by blast
    qed
  qed
qed

lemma sort_firstMin:
  "sort_key cost os =
     (case firstMin os of None \<Rightarrow> [] | Some cur \<Rightarrow> cur # sort_key cost (remove1 cur os))"
proof (induction os)
  case Nil
  then show ?case by simp
next
  case (Cons n ns)
  show ?case
  proof (cases "firstMin ns")
    case None
    then have "ns = []" by (simp add: firstMin_None)
    then show ?thesis by simp
  next
    case (Some m)
    with Cons.IH have ih: "sort_key cost ns = m # sort_key cost (remove1 m ns)" by simp
    show ?thesis
    proof (cases "cost n \<le> cost m")
      case True
      then show ?thesis using Some ih by simp
    next
      case False
      then have "n \<noteq> m" by auto
      then show ?thesis using False Some ih by simp
    qed
  qed
qed

text \<open>
  Claim C7. The route is a function of the floor geometry (bounds, walls, exits), the
  hazards of the floor in effect, the occupant's cell, role and action, and of nothing
  else: two observers that agree on these compute the same route, whatever else their
  states hold. Each round of the loop takes the earliest entry of least cost (every entry
  before it in the frontier costs strictly more), keeps the others in a stable order, in
  which entries of equal cost stay in the order of their discovery, and puts the newly
  relaxed entries behind them.
\<close>

theorem findPath_deterministic:
  "(width c = width c' \<and> height c = height c' \<and> walls c = walls c' \<and> exits c = exits c'
      \<and> hazardsOn c = hazardsOn c'
     \<longrightarrow> findPath c startX startY role ffAction = findPath c' startX startY role ffAction)
   \<and> searchLoop W H getCost' targets openSet visited =
       (case firstMin openSet of
          None \<Rightarrow> None
        | Some cur \<Rightarrow>
            let rest = sort_key cost (remove1 cur openSet) in
            if (case visited (node_x cur, node_y cur) of None \<Rightarrow> False | Some v \<Rightarrow> v \<le> cost cur)
            then searchLoop W H getCost' targets rest visited
            else if list_ex (\<lambda>t. fst t = node_x cur \<and> snd t = node_y cur) targets
            then Some cur
            else searchLoop W H getCost' targets
                   (rest @ pushNeighbors W H getCost' (visited((node_x cur, node_y cur) \<mapsto> cost cur)) cur)
                   (visited((node_x cur, node_y cur) \<mapsto> cost cur)))
   \<and> (firstMin openSet = Some n \<longrightarrow>
        (\<exists>pre post. openSet = pre @ n # post \<and> list_all (\<lambda>m. cost n < cost m) pre
                     \<and> list_all (\<lambda>m. cost n \<le> cost m) post))
   \<and> filter (\<lambda>m. cost m = k) (sort_key cost openSet) = filter (\<lambda>m. cost m = k) openSet"
proof -
  have 1: "width c = width c' \<and> height c = height c' \<and> walls c = walls c' \<and> exits c = exits c'
      \<and> hazardsOn c = hazardsOn c'
     \<longrightarrow> findPath c startX startY role ffAction = findPath c' startX startY role ffAction"
    using findPath_inputs by blast
  have 2: "searchLoop W H getCost' targets openSet visited =
       (case firstMin openSet of
          None \<Rightarrow> None
        | Some cur \<Rightarrow>
            let rest = sort_key cost (remove1 cur openSet) in
            if (case visited (node_x cur, node_y cur) of None \<Rightarrow> False | Some v \<Rightarrow> v \<le> cost cur)
            then searchLoop W H getCost' targets rest visited
            else if list_ex (\<lambda>t. fst t = node_x cur \<and> snd t = node_y cur) targets
            then Some cur
            else searchLoop W H getCost' targets
                   (rest @ pushNeighbors W H getCost' (visited((node_x cur, node_y cur) \<mapsto> cost cur)) cur)
                   (visited((node_x cur, node_y cur) \<mapsto> cost cur)))"
    by (subst searchLoop.simps, subst sort_firstMin) (simp add: Let_def split: option.splits)
  have 3: "firstMin openSet = Some n \<longrightarrow>
        (\<exists>pre post. openSet = pre @ n # post \<and> list_all (\<lambda>m. cost n < cost m) pre
                     \<and> list_all (\<lambda>m. cost n \<le> cost m) post)"
    using firstMin_split by blast
  have 4: "filter (\<lambda>m. cost m = k) (sort_key cost openSet) = filter (\<lambda>m. cost m = k) openSet"
    by (rule sort_key_stable)
  from 1 2 3 4 show ?thesis by blast
qed


theorem findPath_deterministic_witness:
  "width demoFloor = width demoFloorBusy \<and> height demoFloor = height demoFloorBusy
   \<and> walls demoFloor = walls demoFloorBusy \<and> exits demoFloor = exits demoFloorBusy
   \<and> hazardsOn demoFloor = hazardsOn demoFloorBusy
   \<and> fireLocations demoFloor \<noteq> fireLocations demoFloorBusy
   \<and> findPath demoFloorBusy 0 0 ''civilian'' ''evacuate''
        = [(0, 0), (0, 1), (1, 1), (2, 1), (3, 1), (3, 0), (4, 0)]
   \<and> firstMin [Node 0 1 2 None, Node 1 0 1 None, Node 0 2 1 None] = Some (Node 1 0 1 None)
   \<and> (\<exists>pre post. [Node 0 1 2 None, Node 1 0 1 None, Node 0 2 1 None] = pre @ Node 1 0 1 None # post
          \<and> list_all (\<lambda>m. cost (Node 1 0 1 None) < cost m) pre
          \<and> list_all (\<lambda>m. cost (Node 1 0 1 None) \<le> cost m) post)"
proof -
  have h: "width demoFloor = width demoFloorBusy \<and> height demoFloor = height demoFloorBusy
     \<and> walls demoFloor = walls demoFloorBusy \<and> exits demoFloor = exits demoFloorBusy
     \<and> hazardsOn demoFloor = hazardsOn demoFloorBusy"
    by (simp add: hazardsOn_def demoFloor_def demoFloorBusy_def)
  have d: "fireLocations demoFloor \<noteq> fireLocations demoFloorBusy"
    by (simp add: demoFloor_def demoFloorBusy_def)
  have f: "firstMin [Node 0 1 2 None, Node 1 0 1 None, Node 0 2 1 None] = Some (Node 1 0 1 None)"
    by simp
  note t = findPath_deterministic[where c=demoFloor and c'=demoFloorBusy and startX=0 and startY=0
      and role="''civilian''" and ffAction="''evacuate''"
      and openSet="[Node 0 1 2 None, Node 1 0 1 None, Node 0 2 1 None]" and n="Node 1 0 1 None"]
  from t h have 1: "findPath demoFloor 0 0 ''civilian'' ''evacuate'' = findPath demoFloorBusy 0 0 ''civilian'' ''evacuate''"
    by blast
  from t f have 2: "\<exists>pre post. [Node 0 1 2 None, Node 1 0 1 None, Node 0 2 1 None] = pre @ Node 1 0 1 None # post
          \<and> list_all (\<lambda>m. cost (Node 1 0 1 None) < cost m) pre
          \<and> list_all (\<lambda>m. cost (Node 1 0 1 None) \<le> cost m) post"
    by blast
  from h d f 1 2 demoFloor_route show ?thesis by simp
qed

section \<open>The earlier revision of the planner\<close>

text \<open>The planner of \<^verbatim>\<open>script.js\<close> runs the same loop, so it too returns a cheapest path to
  an exit, or the empty route when no exit can be reached; its cost counts the fires of
  every floor.\<close>

lemma passable_getCost0: "passable (width c) (height c) (getCost0 c) = walkable c"
  by (rule ext) (simp add: passable_def walkable_def isInBounds_def getCost0_def)

lemma findPath0_correct:
  "(case findPath0 c startX startY of
      [] \<Rightarrow> \<not> (\<exists>ps. validPath (walkable c) ps \<and> hd ps = (startX, startY) \<and> last ps \<in> set (exits c))
    | p # ps' \<Rightarrow>
        validPath (walkable c) (p # ps') \<and> hd (p # ps') = (startX, startY)
        \<and> last (p # ps') \<in> set (exits c)
        \<and> (\<forall>ps. validPath (walkable c) ps \<longrightarrow> hd ps = (startX, startY) \<longrightarrow> last ps \<in> set (exits c)
               \<longrightarrow> pathCost (getCost0 c) (p # ps') \<le> pathCost (getCost0 c) ps))"
proof -
  let ?s = "(startX, startY)"
  let ?r = "searchLoop (width c) (height c) (getCost0 c) (exits c) [Node startX startY 0 None] Map.empty"
  have inv: "searchInv (width c) (height c) (getCost0 c) (exits c) ?s [Node startX startY 0 None] Map.empty"
    by (rule searchInv_init)
  note main = searchLoop_correct[OF inv, unfolded passable_getCost0]
  show ?thesis
  proof (cases ?r)
    case None
    with main have "\<forall>ps. validPath (walkable c) ps \<longrightarrow> hd ps = ?s \<longrightarrow> last ps \<notin> set (exits c)"
      by simp
    moreover have "findPath0 c startX startY = []" using None by (simp add: findPath0_def)
    ultimately show ?thesis by auto
  next
    case (Some n)
    with main have g: "goodNode (width c) (height c) (getCost0 c) ?s n" and t: "nodeKey n \<in> set (exits c)"
      and m: "\<forall>ps. validPath (walkable c) ps \<longrightarrow> hd ps = ?s \<longrightarrow> last ps \<in> set (exits c)
                    \<longrightarrow> cost n \<le> pathCost (getCost0 c) ps"
      by simp_all
    have fp: "findPath0 c startX startY = chain n"
      using Some by (simp add: findPath0_def reconstruct_chain)
    from g have "validPath (walkable c) (chain n)" "hd (chain n) = ?s"
      "pathCost (getCost0 c) (chain n) = cost n"
      by (simp_all add: goodNode_def passable_getCost0)
    with t m have "validPath (walkable c) (chain n) \<and> hd (chain n) = ?s
        \<and> last (chain n) \<in> set (exits c)
        \<and> (\<forall>ps. validPath (walkable c) ps \<longrightarrow> hd ps = ?s \<longrightarrow> last ps \<in> set (exits c)
               \<longrightarrow> pathCost (getCost0 c) (chain n) \<le> pathCost (getCost0 c) ps)"
      by (simp add: last_chain)
    then show ?thesis using chain_not_Nil[of n] unfolding fp by (cases "chain n") simp_all
  qed
qed

lemma getCost0_value:
  "getCost0 c x y =
     (if isWall c x y then Infinity
      else Some (1 + (\<Sum>f\<leftarrow>filter (\<lambda>f. euclid x y f < 4) (fireLocations c).
                        nat \<lfloor>(4.5 - euclid x y f) * 10\<rfloor>)))"
proof -
  have "fold (\<lambda>fire acc.
           let dist = sqrt (real_of_int ((x - fire_x fire)\<^sup>2 + (y - fire_y fire)\<^sup>2))
           in if dist < 4 then acc + nat \<lfloor>(4.5 - dist) * 10\<rfloor> else acc) fs a
        = a + (\<Sum>f\<leftarrow>filter (\<lambda>f. euclid x y f < 4) fs. nat \<lfloor>(4.5 - euclid x y f) * 10\<rfloor>)" for fs a
    by (induction fs arbitrary: a) (simp_all add: euclid_def Let_def)
  then show ?thesis by (simp add: getCost0_def)
qed

end
